theory Spec2Isabelle
  imports Main "HOL-Library.Sublist"
begin

section \<open>Strings and character classes\<close>

text \<open>
  A JavaScript string is a sequence of UTF-16 code units. Texts are modelled as
  \<open>string\<close>, that is as sequences of code units below 256 (the Latin-1 range), on which
  the built-in character predicates and case mappings of ECMAScript are written out in full.
\<close>

definition code :: "char \<Rightarrow> int" where
  \<comment> \<open>the code unit of a character\<close>
  "code c = of_char c"

definition isDigit :: "char \<Rightarrow> bool" where
  \<comment> \<open>\<open>\d\<close>: the ten ASCII digits\<close>
  "isDigit c = (let n = code c in 48 \<le> n \<and> n \<le> 57)"

definition isWordChar :: "char \<Rightarrow> bool" where
  \<comment> \<open>the word characters of \<open>\b\<close>: \<open>A-Z\<close>, \<open>a-z\<close>, \<open>0-9\<close> and \<open>_\<close>\<close>
  "isWordChar c =
     (let n = code c in
      (65 \<le> n \<and> n \<le> 90) \<or> (97 \<le> n \<and> n \<le> 122) \<or> (48 \<le> n \<and> n \<le> 57) \<or> n = 95)"

definition isSpace :: "char \<Rightarrow> bool" where
  \<comment> \<open>\<open>\s\<close>: TAB, LF, VT, FF, CR, SPACE and NBSP are the white space and line
      terminator code units below 256\<close>
  "isSpace c = (let n = code c in (9 \<le> n \<and> n \<le> 13) \<or> n = 32 \<or> n = 160)"

definition canonicalCode :: "int \<Rightarrow> int" where
  \<comment> \<open>Canonicalize of a pattern with the \<open>i\<close> flag and without the \<open>u\<close> flag, on code
      units below 256: the code unit of the upper-case form when that is a single code
      unit, except that a non-ASCII character is never mapped to an ASCII one. The micro
      sign and y with diaeresis have their upper-case forms outside Latin-1 (U+039C,
      U+0178); sharp s has a two-unit upper-case form and stays.\<close>
  "canonicalCode n =
     (if 97 \<le> n \<and> n \<le> 122 then n - 32
      else if 224 \<le> n \<and> n \<le> 254 \<and> n \<noteq> 247 then n - 32
      else if n = 181 then 924
      else if n = 255 then 376
      else n)"

definition canonicalize :: "char \<Rightarrow> int" where
  "canonicalize c = canonicalCode (code c)"

definition toLowerCaseChar :: "char \<Rightarrow> char" where
  "toLowerCaseChar c =
     (let n = code c in
      if (65 \<le> n \<and> n \<le> 90) \<or> (192 \<le> n \<and> n \<le> 222 \<and> n \<noteq> 215) then char_of (nat (n + 32))
      else c)"

definition toLowerCase :: "string \<Rightarrow> string" where
  "toLowerCase s = map toLowerCaseChar s"

section \<open>Regular expressions\<close>

text \<open>
  The patterns of the program use literals, character classes, greedy quantifiers on a
  single character class, alternation, one capture group, \<open>\b\<close> and \<open>$\<close>. The matcher
  below is the backtracking matcher of ECMAScript restricted to these forms: it returns
  every way a pattern can match at the current position, in the order in which
  backtracking tries them, so the head of the list is the match the engine reports.
\<close>

datatype citem = Rng char char | Single char | Space | Digit

datatype cset = Pos "citem list" | Neg "citem list"

datatype regex =
    Lit string
  | Rep cset nat "nat option"
  | WordB
  | Eoi
  | Seq regex regex
  | Alt regex regex
  | Cap regex

definition sameChar :: "bool \<Rightarrow> char \<Rightarrow> char \<Rightarrow> bool" where
  \<comment> \<open>a pattern character against an input character, under the \<open>i\<close> flag or not\<close>
  "sameChar ic a c = (if ic then canonicalize a = canonicalize c else a = c)"

definition sameCode :: "bool \<Rightarrow> int \<Rightarrow> char \<Rightarrow> bool" where
  "sameCode ic n c = (if ic then canonicalCode n = canonicalize c else n = code c)"

fun inItem :: "bool \<Rightarrow> citem \<Rightarrow> char \<Rightarrow> bool" where
  "inItem ic (Rng lo hi) c = list_ex (\<lambda>n. sameCode ic n c) [code lo .. code hi]"
| "inItem ic (Single a) c = sameChar ic a c"
| "inItem ic Space c = isSpace c"
| "inItem ic Digit c = isDigit c"

fun inSet :: "bool \<Rightarrow> cset \<Rightarrow> char \<Rightarrow> bool" where
  "inSet ic (Pos items) c = list_ex (\<lambda>i. inItem ic i c) items"
| "inSet ic (Neg items) c = (\<not> list_ex (\<lambda>i. inItem ic i c) items)"

definition isWordAt :: "char option \<Rightarrow> bool" where
  \<comment> \<open>IsWordChar at an index: false outside the input\<close>
  "isWordAt x = (case x of None \<Rightarrow> False | Some c \<Rightarrow> isWordChar c)"

definition nextChar :: "string \<Rightarrow> char option" where
  "nextChar rest = (case rest of [] \<Rightarrow> None | c # _ \<Rightarrow> Some c)"

definition lastChar :: "char option \<Rightarrow> string \<Rightarrow> char option" where
  \<comment> \<open>the character before the position reached after consuming \<open>m\<close>\<close>
  "lastChar prev m = (if m = [] then prev else Some (last m))"

text \<open>
  \<open>ms ic r prev rest\<close>: the matches of \<open>r\<close> at the position whose preceding character is
  \<open>prev\<close> and whose remaining input is \<open>rest\<close>; each is the consumed text with the value of
  the capture group.
\<close>

fun litPrefix :: "bool \<Rightarrow> string \<Rightarrow> string \<Rightarrow> string option" where
  \<comment> \<open>the prefix of the input that a literal matches, character by character\<close>
  "litPrefix ic [] rest = Some []"
| "litPrefix ic (a # l) [] = None"
| "litPrefix ic (a # l) (c # cs) =
     (if sameChar ic a c then map_option ((#) c) (litPrefix ic l cs) else None)"

fun ms :: "bool \<Rightarrow> regex \<Rightarrow> char option \<Rightarrow> string \<Rightarrow> (string \<times> string option) list" where
  "ms ic (Lit l) prev rest =
     (case litPrefix ic l rest of None \<Rightarrow> [] | Some m \<Rightarrow> [(m, None)])"
| "ms ic (Rep cs mn mx) prev rest =
     (let run = length (takeWhile (inSet ic cs) rest);
          n = (case mx of None \<Rightarrow> run | Some m \<Rightarrow> min run m)
      in if n < mn then [] else map (\<lambda>k. (take k rest, None)) (rev [mn ..< Suc n]))"
| "ms ic WordB prev rest =
     (if isWordAt prev \<noteq> isWordAt (nextChar rest) then [([], None)] else [])"
| "ms ic Eoi prev rest = (if rest = [] then [([], None)] else [])"
| "ms ic (Seq a b) prev rest =
     concat (map (\<lambda>(m1, c1).
                map (\<lambda>(m2, c2). (m1 @ m2, case c2 of None \<Rightarrow> c1 | Some _ \<Rightarrow> c2))
                    (ms ic b (lastChar prev m1) (drop (length m1) rest)))
             (ms ic a prev rest))"
| "ms ic (Alt a b) prev rest = ms ic a prev rest @ ms ic b prev rest"
| "ms ic (Cap r) prev rest = map (\<lambda>(m, _). (m, Some m)) (ms ic r prev rest)"

text \<open>
  RegExpBuiltinExec without the \<open>g\<close> flag: the first position, from the left, at which the
  pattern matches, and the first match there. The result is the number of characters
  skipped, the matched text \<open>m[0]\<close> and the capture \<open>m[1]\<close>.
\<close>

fun re_search :: "bool \<Rightarrow> regex \<Rightarrow> char option \<Rightarrow> string \<Rightarrow> (nat \<times> string \<times> string option) option" where
  "re_search ic r prev rest =
     (case ms ic r prev rest of
        x # _ \<Rightarrow> Some (0, x)
      | [] \<Rightarrow> (case rest of
                 [] \<Rightarrow> None
               | c # cs \<Rightarrow> map_option (\<lambda>(k, x). (Suc k, x)) (re_search ic r (Some c) cs)))"

definition match_re :: "bool \<Rightarrow> regex \<Rightarrow> string \<Rightarrow> (string \<times> string option) option" where
  \<comment> \<open>\<open>text.match(re)\<close> for a pattern without the \<open>g\<close> flag\<close>
  "match_re ic r text = map_option snd (re_search ic r None text)"

text \<open>A match consumes a prefix of the remaining input.\<close>

lemma litPrefix_prefix: "litPrefix ic l rest = Some m \<Longrightarrow> prefix m rest \<and> length m = length l"
  by (induction ic l rest arbitrary: m rule: litPrefix.induct) (auto split: if_splits)

lemma ms_prefix: "(m, c) \<in> set (ms ic r prev rest) \<Longrightarrow> prefix m rest"
proof (induction r arbitrary: m c prev rest)
  case (Lit l)
  then show ?case by (auto split: option.splits dest: litPrefix_prefix[OF sym])
next
  case (Rep cs mn mx)
  then show ?case by (auto simp: Let_def take_is_prefix split: if_splits)
next
  case (Seq a b)
  from Seq.prems obtain m1 c1 m2 c2 where
    a: "(m1, c1) \<in> set (ms ic a prev rest)" and
    b: "(m2, c2) \<in> set (ms ic b (lastChar prev m1) (drop (length m1) rest))" and
    m: "m = m1 @ m2"
    by auto
  from Seq.IH(1)[OF a] obtain r1 where r1: "rest = m1 @ r1" by (auto simp: prefix_def)
  from Seq.IH(2)[OF b] r1 obtain r2 where "r1 = m2 @ r2" by (auto simp: prefix_def)
  with r1 m show ?case by (simp add: prefix_def)
qed (auto split: if_splits)

declare re_search.simps [simp del]

lemma re_search_Nil:
  "re_search ic r prev [] = (case ms ic r prev [] of [] \<Rightarrow> None | x # _ \<Rightarrow> Some (0, x))"
  by (simp add: re_search.simps[of ic r prev "[]"] split: list.splits)

lemma re_search_Cons:
  "re_search ic r prev (x # xs) =
     (case ms ic r prev (x # xs) of
        [] \<Rightarrow> map_option (\<lambda>(k, y). (Suc k, y)) (re_search ic r (Some x) xs)
      | y # _ \<Rightarrow> Some (0, y))"
  by (simp add: re_search.simps[of ic r prev "x # xs"] split: list.splits)

lemma re_search_bound:
  "re_search ic r prev rest = Some (k, m, c) \<Longrightarrow> k + length m \<le> length rest"
proof (induction rest arbitrary: prev k)
  case Nil
  show ?case
  proof (cases "ms ic r prev []")
    case Nil
    with Nil.prems show ?thesis by (simp add: re_search_Nil)
  next
    case (Cons y ys)
    with Nil.prems have "(m, c) \<in> set (ms ic r prev [])" "k = 0" by (auto simp: re_search_Nil)
    then show ?thesis by (auto dest: ms_prefix)
  qed
next
  case (Cons x xs)
  show ?case
  proof (cases "ms ic r prev (x # xs)")
    case Nil
    with Cons.prems obtain k' where "re_search ic r (Some x) xs = Some (k', m, c)" "k = Suc k'"
      by (auto simp: re_search_Cons)
    with Cons.IH show ?thesis by fastforce
  next
    case (Cons y ys)
    with Cons.prems have "(m, c) \<in> set (ms ic r prev (x # xs))" "k = 0"
      by (auto simp: re_search_Cons)
    then show ?thesis using prefix_length_le[OF ms_prefix, of m c ic r prev "x # xs"] by simp
  qed
qed

text \<open>
  The iteration of \<open>text.matchAll(re)\<close> for a pattern with the \<open>g\<close> flag: each search
  starts where the previous match ended, one character further after an empty match.
  The result lists the matched texts \<open>m[0]\<close>.
\<close>

function matchAll :: "bool \<Rightarrow> regex \<Rightarrow> char option \<Rightarrow> string \<Rightarrow> string list" where
  "matchAll ic r prev rest =
     (case re_search ic r prev rest of
        None \<Rightarrow> []
      | Some (k, m, c) \<Rightarrow>
          m # (if m = [] then (case drop k rest of
                                [] \<Rightarrow> []
                              | x # xs \<Rightarrow> matchAll ic r (Some x) xs)
               else matchAll ic r (Some (last m)) (drop (k + length m) rest)))"
  by pat_completeness auto
termination
proof (relation "measure (\<lambda>(ic, r, prev, rest). length rest)", goal_cases)
  case 1
  show ?case by simp
next
  case (2 ic r prev rest x2 k y m c x xs)
  from \<open>drop k rest = x # xs\<close> have "length (drop k rest) = Suc (length xs)" by simp
  then show ?case by simp
next
  case (3 ic r prev rest x2 k y m c)
  then have "k + length m \<le> length rest" "0 < length m" by (auto dest: re_search_bound)
  then have "length rest - (k + length m) < length rest" by arith
  then show ?case by simp
qed

declare matchAll.simps [simp del]

section \<open>Social parsing\<close>

fun cat :: "regex list \<Rightarrow> regex" where
  \<comment> \<open>the terms of a pattern, in sequence\<close>
  "cat [] = Lit []"
| "cat [r] = r"
| "cat (r # rs) = Seq r (cat rs)"

definition ws :: regex where
  \<comment> \<open>\<open>\s*\<close>\<close>
  "ws = Rep (Pos [Space]) 0 None"

definition sep :: regex where
  \<comment> \<open>\<open>[:\-]?\<close>\<close>
  "sep = Rep (Pos [Single (CHR '':''), Single (CHR ''-'')]) 0 (Some 1)"

definition at :: regex where
  \<comment> \<open>\<open>@?\<close>\<close>
  "at = Rep (Pos [Single (CHR ''@'')]) 0 (Some 1)"

definition handleChars :: "citem list" where
  \<comment> \<open>\<open>[a-z0-9._]\<close>\<close>
  "handleChars = [Rng (CHR ''a'') (CHR ''z''), Rng (CHR ''0'') (CHR ''9''),
                  Single (CHR ''.''), Single (CHR ''_'')]"

definition SOCIAL_PATTERNS :: "(string \<times> regex) list" where
  "SOCIAL_PATTERNS =
    [(''Instagram'',
        cat [WordB, Alt (Lit ''ig'') (Alt (Lit ''insta'') (Lit ''instagram'')), ws, sep, ws, at,
             Cap (Rep (Pos handleChars) 2 (Some 30)), WordB]),
     (''Twitter'',
        cat [WordB, Alt (Lit ''x'') (Alt (Lit ''twitter'') (Lit ''tweet'')), ws, sep, ws, at,
             Cap (Rep (Pos handleChars) 2 (Some 30)), WordB]),
     (''Discord'',
        cat [WordB, Alt (Lit ''discord'') (Lit ''dc''), ws, sep, ws,
             Cap (Rep (Pos (handleChars @ [Single (CHR ''#'')])) 2 (Some 37)), WordB]),
     (''YouTube'',
        cat [WordB, Alt (Lit ''yt'') (Lit ''youtube''), ws, sep, ws, at,
             Cap (Rep (Pos (handleChars @ [Single (CHR ''-'')])) 2 (Some 60)), WordB]),
     (''TikTok'',
        cat [WordB, Alt (Lit ''tt'') (Lit ''tiktok''), ws, sep, ws, at,
             Cap (Rep (Pos handleChars) 2 (Some 30)), WordB]),
     (''Facebook'',
        cat [WordB, Alt (Lit ''fb'') (Lit ''facebook''), ws, sep, ws, at,
             Cap (Rep (Pos handleChars) 2 (Some 50)), WordB]),
     (''Telegram'',
        cat [WordB, Alt (Lit ''tg'') (Lit ''telegram''), ws, sep, ws, at,
             Cap (Rep (Pos handleChars) 2 (Some 50)), WordB])]"

definition URL_RE :: regex where
  \<comment> \<open>\<open>/\bhttps?:\/\/[^\s)]+/gi\<close>\<close>
  "URL_RE = cat [WordB, Lit ''http'', Rep (Pos [Single (CHR ''s'')]) 0 (Some 1), Lit ''://'',
                 Rep (Neg [Space, Single (CHR '')'')]) 1 None]"

record handle_match =
  type :: string
  handle :: "string option"

record parsed_bio =
  found :: "handle_match list"
  urls :: "string list"

fun dedup :: "string set \<Rightarrow> string list \<Rightarrow> string list" where
  \<comment> \<open>the filter of \<open>urls\<close> with its set \<open>seen\<close> of lower-cased keys\<close>
  "dedup seen [] = []"
| "dedup seen (u # us) =
     (let k = toLowerCase u in
      if k \<in> seen then dedup seen us else u # dedup (insert k seen) us)"

definition extractConnectionsFromBio :: "string \<Rightarrow> parsed_bio" where
  "extractConnectionsFromBio text =
     (let found = foldl (\<lambda>found (name, re).
                     case match_re True re text of
                       None \<Rightarrow> found
                     | Some (m0, m1) \<Rightarrow> found @ [\<lparr>type = name, handle = m1\<rparr>])
                   [] SOCIAL_PATTERNS;
          urls = matchAll True URL_RE None text;
          dedup = dedup {} urls
      in \<lparr>found = found, urls = dedup\<rparr>)"

section \<open>Rolimons profile URLs\<close>

record rolimons_target =
  userId :: "string option"
  username :: "string option"

definition idRe :: regex where
  \<comment> \<open>\<open>/\/player\/(\d+)(?:\/|$)/i\<close>\<close>
  "idRe = cat [Lit ''/player/'', Cap (Rep (Pos [Digit]) 1 None), Alt (Lit ''/'') Eoi]"

definition nameRe :: regex where
  \<comment> \<open>\<open>/\/player\/([A-Za-z0-9_]+)(?:\/|$)/i\<close>\<close>
  "nameRe = cat [Lit ''/player/'',
                 Cap (Rep (Pos [Rng (CHR ''A'') (CHR ''Z''), Rng (CHR ''a'') (CHR ''z''),
                                Rng (CHR ''0'') (CHR ''9''), Single (CHR ''_'')]) 1 None),
                 Alt (Lit ''/'') Eoi]"

definition parseRolimonsTarget :: "string \<Rightarrow> rolimons_target" where
  "parseRolimonsTarget s =
     (case match_re True idRe s of
        Some (m0, m1) \<Rightarrow> \<lparr>userId = m1, username = None\<rparr>
      | None \<Rightarrow>
          (case match_re True nameRe s of
             Some (m0, m1) \<Rightarrow> \<lparr>userId = None, username = m1\<rparr>
           | None \<Rightarrow> \<lparr>userId = None, username = None\<rparr>))"

section \<open>The /check endpoint\<close>

text \<open>
  The upstream services are the environment of a request. Each \<open>axios\<close> call either
  throws (an HTTP error status, a network error or a timeout: \<open>Inl\<close>) or returns the data
  the handler reads from the response: the \<open>id\<close> of the first user found, the profile
  with its \<open>name\<close> and \<open>description\<close> (strings, or missing), and the social links
  (an array, or a body that is not an array: \<open>None\<close>). \<open>getConnections\<close> checks
  only that the body is an array, so an element of it is whatever the upstream sent: an
  object, of which the code reads \<open>type\<close>, \<open>platform\<close> and \<open>url\<close>, or
  \<open>null\<close> (here \<open>None\<close>). An element that is neither has none of the three
  properties and is read as an object without them. The call log records which upstream
  calls a request makes, in order. Console output is not modelled.

  A request carries the three fields the handlers read from \<open>req.query\<close> or
  \<open>req.body\<close>; a field that is not supplied is \<open>None\<close>. A \<open>userId\<close> is a string
  or a number.
\<close>

datatype ident = IdStr string | IdNum nat

record failure =
  message :: string
  status :: "nat option"

record profile =
  info_name :: "string option"
  info_description :: "string option"

record connection =
  conn_type :: "string option"
  conn_platform :: "string option"
  conn_url :: "string option"

record embed_input =
  embed_username :: string
  embed_userId :: ident
  embed_bio :: string
  embed_parsedBio :: parsed_bio
  embed_connections :: "connection option list"

record env =
  WEBHOOK_URL :: string
  ROBLOX_COOKIE :: string
  usernames_post :: "string \<Rightarrow> failure + ident option"
  users_get :: "string \<Rightarrow> failure + profile option"
  social_links_get :: "string \<Rightarrow> failure + connection option list option"
  webhook_post :: "embed_input \<Rightarrow> failure + unit"

datatype call =
    PostUsernames string
  | GetUser string
  | GetSocialLinks string
  | PostWebhook embed_input

record request =
  req_username :: "string option"
  req_userId :: "ident option"
  req_rolimonsUrl :: "string option"

record check_result =
  res_userId :: ident
  res_username :: string
  res_bio :: string
  res_parsed :: parsed_bio
  res_connections :: "connection option list"

datatype body = ErrorBody string | ResultBody check_result

datatype response = Json nat body

function decimal :: "nat \<Rightarrow> string" where
  "decimal n = (if n < 10 then [char_of (48 + n)] else decimal (n div 10) @ [char_of (48 + n mod 10)])"
  by pat_completeness auto
termination
  by (relation "measure id") auto

declare decimal.simps [simp del]

fun toStr :: "ident \<Rightarrow> string" where
  \<comment> \<open>\<open>String(userId)\<close>\<close>
  "toStr (IdStr s) = s"
| "toStr (IdNum n) = decimal n"

fun truthyId :: "ident \<Rightarrow> bool" where
  "truthyId (IdStr s) = (s \<noteq> [])"
| "truthyId (IdNum n) = (n \<noteq> 0)"

definition truthy :: "string option \<Rightarrow> bool" where
  \<comment> \<open>a missing value and the empty string are falsy\<close>
  "truthy x = (case x of None \<Rightarrow> False | Some s \<Rightarrow> s \<noteq> [])"

definition usernameToId :: "env \<Rightarrow> string \<Rightarrow> (failure + ident) \<times> call list" where
  "usernameToId e uname =
     (case usernames_post e uname of
        Inl err \<Rightarrow> (Inl err, [PostUsernames uname])
      | Inr data \<Rightarrow>
          (case data of
             Some i \<Rightarrow>
               if truthyId i then (Inr i, [PostUsernames uname])
               else (Inl \<lparr>message = ''Username not found: '' @ uname, status = None\<rparr>,
                     [PostUsernames uname])
           | None \<Rightarrow>
               (Inl \<lparr>message = ''Username not found: '' @ uname, status = None\<rparr>,
                [PostUsernames uname])))"

definition getUserInfo :: "env \<Rightarrow> string \<Rightarrow> (failure + profile option) \<times> call list" where
  "getUserInfo e uid = (users_get e uid, [GetUser uid])"

definition getConnections :: "env \<Rightarrow> string \<Rightarrow> connection option list \<times> call list" where
  "getConnections e uid =
     (if ROBLOX_COOKIE e = [] then ([], [])
      else (case social_links_get e uid of
              Inr (Some data) \<Rightarrow> (data, [GetSocialLinks uid])
            | Inr None \<Rightarrow> ([], [GetSocialLinks uid])
            | Inl err \<Rightarrow> ([], [GetSocialLinks uid])))"

text \<open>
  The embed sent to the webhook is rendered from the values of \<open>embed_input\<close> and the
  clock; its text is not modelled, and the webhook's answer is a function of those values.
  The fields are rendered before the \<open>try\<close> that guards the post. The line for a
  connection \<open>c\<close> reads \<open>c.type\<close>, which throws a \<open>TypeError\<close> when \<open>c\<close> is
  \<open>null\<close>; nothing catches it inside \<open>sendDiscordEmbed\<close>, so it reaches the handler.
  The message is the one Node gives. The failure of the post itself is caught and logged.
\<close>

definition nullTypeError :: failure where
  \<comment> \<open>\<open>c.type\<close> for \<open>c = null\<close>\<close>
  "nullTypeError = \<lparr>message = ''Cannot read properties of null (reading 'type')'', status = None\<rparr>"

definition sendDiscordEmbed :: "env \<Rightarrow> embed_input \<Rightarrow> (failure + unit) \<times> call list" where
  "sendDiscordEmbed e input =
     (if WEBHOOK_URL e = [] then (Inr (), [])
      else if None \<in> set (embed_connections input) then (Inl nullTypeError, [])
      else (case webhook_post e input of
              Inr _ \<Rightarrow> (Inr (), [PostWebhook input])
            | Inl err \<Rightarrow> (Inr (), [PostWebhook input])))"

definition applyRolimons :: "request \<Rightarrow> ident option \<times> string option" where
  \<comment> \<open>the request's \<open>userId\<close> and \<open>username\<close> after the \<open>rolimonsUrl\<close> block\<close>
  "applyRolimons req =
     (if truthy (req_rolimonsUrl req) then
        (case req_rolimonsUrl req of
           Some url \<Rightarrow>
             (let parsed = parseRolimonsTarget url;
                  uid = (if truthy (userId parsed) then map_option IdStr (userId parsed)
                         else req_userId req);
                  uname = (if truthy (username parsed) \<and> \<not> truthy (req_username req)
                           then username parsed else req_username req)
              in (uid, uname))
         | None \<Rightarrow> (req_userId req, req_username req))
      else (req_userId req, req_username req))"

definition fromUsername :: "string \<Rightarrow> env \<Rightarrow> string option \<Rightarrow> (response + ident) \<times> call list" where
  \<comment> \<open>the branch \<open>if (!userId)\<close>\<close>
  "fromUsername msg e uname =
     (case uname of
        Some u \<Rightarrow>
          if u \<noteq> [] then
            (case usernameToId e u of
               (Inl err, cs) \<Rightarrow> (Inl (Json 500 (ErrorBody (message err))), cs)
             | (Inr i, cs) \<Rightarrow> (Inr i, cs))
          else (Inl (Json 400 (ErrorBody msg)), [])
      | None \<Rightarrow> (Inl (Json 400 (ErrorBody msg)), []))"

definition resolveUserId :: "string \<Rightarrow> env \<Rightarrow> ident option \<Rightarrow> string option \<Rightarrow> (response + ident) \<times> call list" where
  "resolveUserId msg e uid uname =
     (case uid of
        Some i \<Rightarrow> if truthyId i then (Inr i, []) else fromUsername msg e uname
      | None \<Rightarrow> fromUsername msg e uname)"

definition firstTruthy :: "string option \<Rightarrow> string option \<Rightarrow> string \<Rightarrow> string" where
  \<comment> \<open>\<open>a || b || c\<close>\<close>
  "firstTruthy a b c =
     (case a of
        Some x \<Rightarrow> if x \<noteq> [] then x else (case b of Some y \<Rightarrow> if y \<noteq> [] then y else c | None \<Rightarrow> c)
      | None \<Rightarrow> (case b of Some y \<Rightarrow> if y \<noteq> [] then y else c | None \<Rightarrow> c))"

definition checkHandler :: "string \<Rightarrow> env \<Rightarrow> request \<Rightarrow> response \<times> call list" where
  "checkHandler msg e req =
     (let (uid0, uname) = applyRolimons req in
      case resolveUserId msg e uid0 uname of
        (Inl resp, cs1) \<Rightarrow> (resp, cs1)
      | (Inr uid, cs1) \<Rightarrow>
          (case getUserInfo e (toStr uid) of
             (Inl err, cs2) \<Rightarrow> (Json 500 (ErrorBody (message err)), cs1 @ cs2)
           | (Inr info, cs2) \<Rightarrow>
               (let bio = firstTruthy (case info of Some p \<Rightarrow> info_description p | None \<Rightarrow> None) None [];
                    resolvedName = firstTruthy (case info of Some p \<Rightarrow> info_name p | None \<Rightarrow> None)
                                     uname ''Unknown'';
                    parsedBio = extractConnectionsFromBio bio;
                    (connections, cs3) = getConnections e (toStr uid)
                in case sendDiscordEmbed e \<lparr>embed_username = resolvedName, embed_userId = uid,
                                            embed_bio = bio, embed_parsedBio = parsedBio,
                                            embed_connections = connections\<rparr> of
                     (Inl err, cs4) \<Rightarrow> (Json 500 (ErrorBody (message err)), cs1 @ cs2 @ cs3 @ cs4)
                   | (Inr _, cs4) \<Rightarrow>
                       (Json 200 (ResultBody \<lparr>res_userId = uid, res_username = resolvedName,
                                              res_bio = bio, res_parsed = parsedBio,
                                              res_connections = connections\<rparr>),
                        cs1 @ cs2 @ cs3 @ cs4))))"

definition getCheck :: "env \<Rightarrow> request \<Rightarrow> response \<times> call list" where
  \<comment> \<open>\<open>app.get('/check')\<close>, on the fields of \<open>req.query\<close>\<close>
  "getCheck = checkHandler ''Provide ?username=NAME or ?userId=ID or ?rolimonsUrl=''"

definition postCheck :: "env \<Rightarrow> request \<Rightarrow> response \<times> call list" where
  \<comment> \<open>\<open>app.post('/check')\<close>, on the fields of \<open>req.body\<close>\<close>
  "postCheck = checkHandler ''Provide username, userId, or rolimonsUrl''"

definition resolved :: "env \<Rightarrow> request \<Rightarrow> ident \<Rightarrow> bool" where
  \<comment> \<open>the request's identity resolves to \<open>uid\<close>, given or looked up by name\<close>
  "resolved e req uid =
     (\<exists>msg cs. resolveUserId msg e (fst (applyRolimons req)) (snd (applyRolimons req)) = (Inr uid, cs))"

definition bioOf :: "profile option \<Rightarrow> string" where
  \<comment> \<open>\<open>info?.description || ''\<close>\<close>
  "bioOf info = firstTruthy (case info of Some p \<Rightarrow> info_description p | None \<Rightarrow> None) None []"


section \<open>Auxiliary facts about the extraction\<close>

definition entryOf :: "string \<Rightarrow> string \<times> regex \<Rightarrow> handle_match list" where
  "entryOf text p = (case match_re True (snd p) text of
                       None \<Rightarrow> []
                     | Some (m0, m1) \<Rightarrow> [\<lparr>type = fst p, handle = m1\<rparr>])"

lemma foldl_found:
  "foldl (\<lambda>found (name, re).
            case match_re True re text of
              None \<Rightarrow> found
            | Some (m0, m1) \<Rightarrow> found @ [\<lparr>type = name, handle = m1\<rparr>]) acc ps
   = acc @ concat (map (entryOf text) ps)"
  by (induction ps arbitrary: acc) (auto simp: entryOf_def split: option.splits)

lemma found_concat:
  "found (extractConnectionsFromBio text) = concat (map (entryOf text) SOCIAL_PATTERNS)"
  by (simp add: extractConnectionsFromBio_def foldl_found)

lemma types_found:
  "map type (concat (map (entryOf text) ps))
   = map fst (filter (\<lambda>p. match_re True (snd p) text \<noteq> None) ps)"
  by (induction ps) (auto simp: entryOf_def split: option.splits)

lemma names_SOCIAL_PATTERNS:
  "map fst SOCIAL_PATTERNS =
     [''Instagram'', ''Twitter'', ''Discord'', ''YouTube'', ''TikTok'', ''Facebook'', ''Telegram'']"
  by (simp add: SOCIAL_PATTERNS_def)

lemma subseq_map_filter: "subseq (map f (filter P xs)) (map f xs)"
  by (simp add: subseq_map)

lemma dedup_snoc:
  "dedup seen (us @ [u]) =
     dedup seen us @ (if toLowerCase u \<in> seen \<union> toLowerCase ` set us then [] else [u])"
  by (induction us arbitrary: seen) (auto simp: Let_def)

definition firstOccurrences :: "string list \<Rightarrow> string list" where
  "firstOccurrences us =
     map ((!) us) (filter (\<lambda>i. \<forall>j<i. toLowerCase (us ! j) \<noteq> toLowerCase (us ! i)) [0 ..< length us])"

lemma firstOccurrences_snoc:
  "firstOccurrences (us @ [u]) =
     firstOccurrences us @ (if toLowerCase u \<in> toLowerCase ` set us then [] else [u])"
proof -
  let ?P = "\<lambda>vs i. \<forall>j<i. toLowerCase (vs ! j) \<noteq> toLowerCase (vs ! i)"
  have a: "filter (?P (us @ [u])) [0 ..< length us] = filter (?P us) [0 ..< length us]"
    by (rule filter_cong) (auto simp: nth_append)
  have b: "map ((!) (us @ [u])) (filter (?P us) [0 ..< length us])
           = map ((!) us) (filter (?P us) [0 ..< length us])"
    by (rule map_cong) (auto simp: nth_append)
  have c: "?P (us @ [u]) (length us) \<longleftrightarrow> toLowerCase u \<notin> toLowerCase ` set us"
  proof
    assume p: "?P (us @ [u]) (length us)"
    show "toLowerCase u \<notin> toLowerCase ` set us"
    proof
      assume "toLowerCase u \<in> toLowerCase ` set us"
      then obtain j where "j < length us" "toLowerCase (us ! j) = toLowerCase u"
        by (auto simp: in_set_conv_nth)
      with p show False by (auto simp: nth_append)
    qed
  next
    assume n: "toLowerCase u \<notin> toLowerCase ` set us"
    show "?P (us @ [u]) (length us)"
    proof (intro allI impI)
      fix j assume j: "j < length us"
      then have "us ! j \<in> set us" by simp
      then have "toLowerCase (us ! j) \<in> toLowerCase ` set us" by (rule imageI)
      with n have "toLowerCase (us ! j) \<noteq> toLowerCase u" by metis
      with j show "toLowerCase ((us @ [u]) ! j) \<noteq> toLowerCase ((us @ [u]) ! length us)"
        by (simp add: nth_append)
    qed
  qed
  show ?thesis
    unfolding firstOccurrences_def using a b c by simp
qed

lemma dedup_firstOccurrences: "dedup {} us = firstOccurrences us"
proof (induction us rule: rev_induct)
  case Nil
  show ?case by (simp add: firstOccurrences_def)
next
  case (snoc u us)
  then show ?case by (simp add: dedup_snoc firstOccurrences_snoc)
qed

lemma dedup_distinct_gen:
  "distinct (map toLowerCase (dedup seen us)) \<and> toLowerCase ` set (dedup seen us) \<inter> seen = {}"
  by (induction us arbitrary: seen) (auto simp: Let_def)

definition matchesAt :: "regex \<Rightarrow> string \<Rightarrow> nat \<Rightarrow> (string \<times> string option) list" where
  "matchesAt r text k = ms True r (lastChar None (take k text)) (drop k text)"

lemma lastChar_Cons: "lastChar prev (c # m) = lastChar (Some c) m"
  by (simp add: lastChar_def)

lemma re_search_first:
  "re_search ic r prev rest = Some (k, x) \<Longrightarrow>
     k \<le> length rest
     \<and> (\<exists>more. ms ic r (lastChar prev (take k rest)) (drop k rest) = x # more)
     \<and> (\<forall>j<k. ms ic r (lastChar prev (take j rest)) (drop j rest) = [])"
proof (induction rest arbitrary: prev k)
  case Nil
  then show ?case by (auto simp: re_search_Nil lastChar_def split: list.splits)
next
  case (Cons c cs)
  show ?case
  proof (cases "ms ic r prev (c # cs)")
    case Nil
    with Cons.prems obtain k' where k': "re_search ic r (Some c) cs = Some (k', x)" "k = Suc k'"
      by (auto simp: re_search_Cons)
    from Cons.IH[OF k'(1)] have ih:
      "k' \<le> length cs"
      "\<exists>more. ms ic r (lastChar (Some c) (take k' cs)) (drop k' cs) = x # more"
      "\<forall>j<k'. ms ic r (lastChar (Some c) (take j cs)) (drop j cs) = []"
      by auto
    have "\<forall>j<Suc k'. ms ic r (lastChar prev (take j (c # cs))) (drop j (c # cs)) = []"
    proof (intro allI impI)
      fix j assume "j < Suc k'"
      show "ms ic r (lastChar prev (take j (c # cs))) (drop j (c # cs)) = []"
      proof (cases j)
        case 0
        with Nil show ?thesis by (simp add: lastChar_def)
      next
        case (Suc j')
        with \<open>j < Suc k'\<close> ih(3) show ?thesis by (simp add: lastChar_Cons)
      qed
    qed
    with ih k'(2) show ?thesis by (simp add: lastChar_Cons)
  next
    case (Cons y ys)
    with Cons.prems show ?thesis by (auto simp: re_search_Cons lastChar_def)
  qed
qed

lemma types_distinct: "distinct (map type (concat (map (entryOf text) SOCIAL_PATTERNS)))"
proof -
  have "distinct (map fst SOCIAL_PATTERNS)" by (simp add: names_SOCIAL_PATTERNS)
  then show ?thesis unfolding types_found by (rule distinct_map_filter)
qed

lemma distinct_filter_le1: "distinct (map f xs) \<Longrightarrow> length (filter (\<lambda>x. f x = a) xs) \<le> 1"
  by (induction xs) (auto simp: filter_empty_conv image_iff)

lemma entryOf_first:
  assumes "f \<in> set (entryOf text (name, re))"
  shows "type f = name \<and> (\<exists>k m more. k \<le> length text \<and> matchesAt re text k = (m, handle f) # more
           \<and> (\<forall>j<k. matchesAt re text j = []))"
proof -
  from assms obtain m0 m1 where m: "match_re True re text = Some (m0, m1)" and f: "f = \<lparr>type = name, handle = m1\<rparr>"
    by (cases "match_re True re text") (auto simp: entryOf_def)
  from m obtain k where "re_search True re None text = Some (k, m0, m1)"
    by (auto simp: match_re_def)
  from re_search_first[OF this] f show ?thesis
    unfolding matchesAt_def by auto
qed

section \<open>Facts about the matcher\<close>

definition sameText :: "string \<Rightarrow> string \<Rightarrow> bool" where
  "sameText l m = list_all2 (sameChar True) l m"

lemma litPrefix_iff:
  "litPrefix ic l rest = Some m \<longleftrightarrow> prefix m rest \<and> list_all2 (sameChar ic) l m"
proof (induction ic l rest arbitrary: m rule: litPrefix.induct)
  case (1 ic rest)
  show ?case by auto
next
  case (2 ic a l)
  show ?case by (auto simp: list_all2_Cons1)
next
  case (3 ic a l c cs)
  show ?case
  proof (cases "sameChar ic a c")
    case True
    with 3 show ?thesis by (auto simp: list_all2_Cons1 prefix_Cons)
  next
    case False
    then show ?thesis by (auto simp: list_all2_Cons1 prefix_Cons)
  qed
qed

lemma ms_Lit_iff:
  "(m, c) \<in> set (ms ic (Lit l) prev rest) \<longleftrightarrow>
     c = None \<and> prefix m rest \<and> list_all2 (sameChar ic) l m"
  using litPrefix_iff[of ic l rest m] by (auto split: option.splits)

lemma prefix_takeWhile_iff:
  "prefix m rest \<and> list_all P m \<longleftrightarrow> prefix m (takeWhile P rest)"
proof (induction rest arbitrary: m)
  case Nil
  show ?case by auto
next
  case (Cons x xs)
  show ?case
  proof (cases m)
    case Nil
    then show ?thesis by simp
  next
    case (Cons y ys)
    with Cons.IH[of ys] show ?thesis by auto
  qed
qed

lemma ms_Rep_iff:
  "(m, c) \<in> set (ms ic (Rep cs mn mx) prev rest) \<longleftrightarrow>
     c = None \<and> prefix m rest \<and> list_all (inSet ic cs) m \<and> mn \<le> length m
     \<and> (case mx of None \<Rightarrow> True | Some x \<Rightarrow> length m \<le> x)"
proof -
  let ?run = "takeWhile (inSet ic cs) rest"
  let ?n = "case mx of None \<Rightarrow> length ?run | Some x \<Rightarrow> min (length ?run) x"
  have len: "length ?run \<le> length rest" by (rule length_takeWhile_le)
  have "set (ms ic (Rep cs mn mx) prev rest) = (\<lambda>k. (take k rest, None)) ` {mn ..< Suc ?n}"
    by (auto simp add: Let_def simp del: upt_Suc)
  then have "(m, c) \<in> set (ms ic (Rep cs mn mx) prev rest)
        \<longleftrightarrow> c = None \<and> (\<exists>k. mn \<le> k \<and> k \<le> ?n \<and> m = take k rest)"
    by (auto simp add: image_iff less_Suc_eq_le simp del: upt_Suc)
  also have "\<dots> \<longleftrightarrow> c = None \<and> prefix m ?run \<and> mn \<le> length m
                  \<and> (case mx of None \<Rightarrow> True | Some x \<Rightarrow> length m \<le> x)"
  proof (intro conj_cong refl iffI)
    assume "\<exists>k. mn \<le> k \<and> k \<le> ?n \<and> m = take k rest"
    then obtain k where k: "mn \<le> k" "k \<le> ?n" "m = take k rest" by blast
    from k(2) have kr: "k \<le> length ?run" by (auto split: option.splits)
    have "take k rest = take k (?run @ dropWhile (inSet ic cs) rest)" by simp
    also have "\<dots> = take k ?run" using kr by (simp del: takeWhile_dropWhile_id)
    finally have mr: "m = take k ?run" using k(3) by simp
    then have "prefix m ?run" by (simp add: take_is_prefix)
    moreover from mr kr have "length m = k" by simp
    ultimately show "prefix m ?run \<and> mn \<le> length m
                  \<and> (case mx of None \<Rightarrow> True | Some x \<Rightarrow> length m \<le> x)"
      using k(1,2) by (auto split: option.splits)
  next
    assume a: "prefix m ?run \<and> mn \<le> length m
                  \<and> (case mx of None \<Rightarrow> True | Some x \<Rightarrow> length m \<le> x)"
    then have pr: "prefix m ?run" by simp
    then have lm: "length m \<le> length ?run" by (rule prefix_length_le)
    from pr have "prefix m rest" by (simp add: prefix_takeWhile_iff[symmetric])
    then have "m = take (length m) rest" by (auto simp: prefix_def)
    with a lm show "\<exists>k. mn \<le> k \<and> k \<le> ?n \<and> m = take k rest"
      by (intro exI[of _ "length m"]) (auto split: option.splits)
  qed
  finally show ?thesis by (auto simp: prefix_takeWhile_iff[symmetric])
qed

lemma ms_Seq_iff:
  "(m, c) \<in> set (ms ic (Seq a b) prev rest) \<longleftrightarrow>
     (\<exists>m1 c1 m2 c2. (m1, c1) \<in> set (ms ic a prev rest)
        \<and> (m2, c2) \<in> set (ms ic b (lastChar prev m1) (drop (length m1) rest))
        \<and> m = m1 @ m2 \<and> c = (case c2 of None \<Rightarrow> c1 | Some _ \<Rightarrow> c2))"
  by (auto simp: image_iff) force+

lemma ms_Alt_iff:
  "x \<in> set (ms ic (Alt a b) prev rest) \<longleftrightarrow>
     x \<in> set (ms ic a prev rest) \<or> x \<in> set (ms ic b prev rest)"
  by simp

lemma ms_Cap_iff:
  "(m, c) \<in> set (ms ic (Cap r) prev rest) \<longleftrightarrow> c = Some m \<and> (\<exists>c'. (m, c') \<in> set (ms ic r prev rest))"
  by (auto simp: image_iff) force+

lemma ms_WordB_iff:
  "(m, c) \<in> set (ms ic WordB prev rest) \<longleftrightarrow>
     m = [] \<and> c = None \<and> isWordAt prev \<noteq> isWordAt (nextChar rest)"
  by auto

lemma ms_Eoi_iff:
  "(m, c) \<in> set (ms ic Eoi prev rest) \<longleftrightarrow> m = [] \<and> c = None \<and> rest = []"
  by auto

lemma code_eq_iff: "code c = code d \<longleftrightarrow> c = d"
  by (simp add: code_def)

lemma code_range: "0 \<le> code c \<and> code c < 256"
proof -
  have "0 \<le> x mod 256 \<and> x mod 256 < 256" for x :: int by simp
  from this[of "of_char c"] show ?thesis by (simp only: of_char_mod_256 code_def)
qed

lemma inItem_Rng_iff:
  "inItem True (Rng lo hi) c \<longleftrightarrow>
     (\<exists>n. code lo \<le> n \<and> n \<le> code hi \<and> canonicalCode n = canonicalCode (code c))"
  by (auto simp: list_ex_iff sameCode_def canonicalize_def)

lemma canon_upper: "65 \<le> n \<Longrightarrow> n \<le> 90 \<Longrightarrow> canonicalCode n = n"
  by (simp add: canonicalCode_def)

lemma canon_digit: "48 \<le> n \<Longrightarrow> n \<le> 57 \<Longrightarrow> canonicalCode n = n"
  by (simp add: canonicalCode_def)

lemma canon_lower: "97 \<le> n \<Longrightarrow> n \<le> 122 \<Longrightarrow> canonicalCode n = n - 32"
  by (simp add: canonicalCode_def)

lemma canon_cases:
  "canonicalCode x = x \<or> (97 \<le> x \<and> x \<le> 122 \<and> canonicalCode x = x - 32)
   \<or> (224 \<le> x \<and> canonicalCode x = x - 32) \<or> 255 < canonicalCode x"
  by (simp add: canonicalCode_def)

lemma canon_ascii_other:
  assumes "0 \<le> x" "x < 256" "0 \<le> a" "a < 65 \<or> (90 < a \<and> a < 97) \<or> (122 < a \<and> a < 128)"
  shows "canonicalCode a = canonicalCode x \<longleftrightarrow> x = a"
proof -
  from assms(4) have a: "canonicalCode a = a" by (auto simp: canonicalCode_def)
  show ?thesis
  proof
    assume "canonicalCode a = canonicalCode x"
    with a have "canonicalCode x = a" by simp
    with canon_cases[of x] assms(4) show "x = a" by arith
  next
    assume "x = a"
    then show "canonicalCode a = canonicalCode x" by simp
  qed
qed

lemma canon_in_upper:
  assumes "0 \<le> x" "x < 256"
  shows "(65 \<le> canonicalCode x \<and> canonicalCode x \<le> 90) \<longleftrightarrow> (65 \<le> x \<and> x \<le> 90) \<or> (97 \<le> x \<and> x \<le> 122)"
proof
  assume "65 \<le> canonicalCode x \<and> canonicalCode x \<le> 90"
  with canon_cases[of x] show "(65 \<le> x \<and> x \<le> 90) \<or> (97 \<le> x \<and> x \<le> 122)" by arith
next
  assume "(65 \<le> x \<and> x \<le> 90) \<or> (97 \<le> x \<and> x \<le> 122)"
  then show "65 \<le> canonicalCode x \<and> canonicalCode x \<le> 90" by (auto simp: canonicalCode_def)
qed

lemma canon_in_digit:
  assumes "0 \<le> x" "x < 256"
  shows "(48 \<le> canonicalCode x \<and> canonicalCode x \<le> 57) \<longleftrightarrow> (48 \<le> x \<and> x \<le> 57)"
proof
  assume "48 \<le> canonicalCode x \<and> canonicalCode x \<le> 57"
  with canon_cases[of x] show "48 \<le> x \<and> x \<le> 57" by arith
next
  assume "48 \<le> x \<and> x \<le> 57"
  then show "48 \<le> canonicalCode x \<and> canonicalCode x \<le> 57" by (auto simp: canonicalCode_def)
qed

lemma sameChar_slash: "sameChar True (CHR ''/'') c \<longleftrightarrow> c = CHR ''/''"
proof -
  have "canonicalCode (code (CHR ''/'')) = canonicalCode (code c) \<longleftrightarrow> code c = code (CHR ''/'')"
    using canon_ascii_other[of "code c" "code (CHR ''/'')"] code_range[of c]
    by (simp add: code_def)
  then show ?thesis by (simp add: sameChar_def canonicalize_def code_eq_iff)
qed

lemma in_upper_class:
  "inItem True (Rng (CHR ''A'') (CHR ''Z'')) c \<longleftrightarrow>
     (65 \<le> code c \<and> code c \<le> 90) \<or> (97 \<le> code c \<and> code c \<le> 122)"
proof -
  have "inItem True (Rng (CHR ''A'') (CHR ''Z'')) c \<longleftrightarrow>
        (\<exists>n. 65 \<le> n \<and> n \<le> 90 \<and> canonicalCode n = canonicalCode (code c))"
    by (simp add: inItem_Rng_iff code_def del: inItem.simps)
  also have "\<dots> \<longleftrightarrow> 65 \<le> canonicalCode (code c) \<and> canonicalCode (code c) \<le> 90"
    by (metis canon_upper)
  finally show ?thesis using canon_in_upper[of "code c"] code_range[of c] by simp
qed

lemma in_lower_class:
  "inItem True (Rng (CHR ''a'') (CHR ''z'')) c \<longleftrightarrow>
     (65 \<le> code c \<and> code c \<le> 90) \<or> (97 \<le> code c \<and> code c \<le> 122)"
proof -
  have "inItem True (Rng (CHR ''a'') (CHR ''z'')) c \<longleftrightarrow>
        (\<exists>n. 97 \<le> n \<and> n \<le> 122 \<and> canonicalCode n = canonicalCode (code c))"
    by (simp add: inItem_Rng_iff code_def del: inItem.simps)
  also have "\<dots> \<longleftrightarrow> 65 \<le> canonicalCode (code c) \<and> canonicalCode (code c) \<le> 90"
  proof
    assume "\<exists>n. 97 \<le> n \<and> n \<le> 122 \<and> canonicalCode n = canonicalCode (code c)"
    then obtain n where "97 \<le> n" "n \<le> 122" "canonicalCode n = canonicalCode (code c)" by blast
    then show "65 \<le> canonicalCode (code c) \<and> canonicalCode (code c) \<le> 90"
      using canon_lower[of n] by simp
  next
    assume a: "65 \<le> canonicalCode (code c) \<and> canonicalCode (code c) \<le> 90"
    let ?n = "canonicalCode (code c) + 32"
    from a have "97 \<le> ?n \<and> ?n \<le> 122 \<and> canonicalCode ?n = canonicalCode (code c)"
      using canon_lower[of ?n] by simp
    then show "\<exists>n. 97 \<le> n \<and> n \<le> 122 \<and> canonicalCode n = canonicalCode (code c)" by blast
  qed
  finally show ?thesis using canon_in_upper[of "code c"] code_range[of c] by simp
qed

lemma in_digit_class:
  "inItem True (Rng (CHR ''0'') (CHR ''9'')) c \<longleftrightarrow> isDigit c"
proof -
  have "inItem True (Rng (CHR ''0'') (CHR ''9'')) c \<longleftrightarrow>
        (\<exists>n. 48 \<le> n \<and> n \<le> 57 \<and> canonicalCode n = canonicalCode (code c))"
    by (simp add: inItem_Rng_iff code_def del: inItem.simps)
  also have "\<dots> \<longleftrightarrow> 48 \<le> canonicalCode (code c) \<and> canonicalCode (code c) \<le> 57"
    by (metis canon_digit)
  finally show ?thesis using canon_in_digit[of "code c"] code_range[of c] by (simp add: isDigit_def Let_def)
qed

lemma sameChar_underscore: "sameChar True (CHR ''_'') c \<longleftrightarrow> code c = 95"
proof -
  have "canonicalCode (code (CHR ''_'')) = canonicalCode (code c) \<longleftrightarrow> code c = code (CHR ''_'')"
    using canon_ascii_other[of "code c" "code (CHR ''_'')"] code_range[of c]
    by (simp add: code_def)
  then show ?thesis by (simp add: sameChar_def canonicalize_def) (simp add: code_def)
qed

lemma nameClass_iff:
  "inSet True (Pos [Rng (CHR ''A'') (CHR ''Z''), Rng (CHR ''a'') (CHR ''z''),
                    Rng (CHR ''0'') (CHR ''9''), Single (CHR ''_'')]) c \<longleftrightarrow> isWordChar c"
  by (simp add: in_upper_class in_lower_class in_digit_class sameChar_underscore
        isWordChar_def isDigit_def Let_def del: inItem.simps(1))
     auto

lemma digitClass_iff: "inSet True (Pos [Digit]) c \<longleftrightarrow> isDigit c"
  by simp

lemma re_search_found:
  "k \<le> length rest \<Longrightarrow> ms ic r (lastChar prev (take k rest)) (drop k rest) = x # rs \<Longrightarrow>
   \<forall>j<k. ms ic r (lastChar prev (take j rest)) (drop j rest) = [] \<Longrightarrow>
   re_search ic r prev rest = Some (k, x)"
proof (induction rest arbitrary: prev k)
  case Nil
  then show ?case by (simp add: re_search_Nil lastChar_def)
next
  case (Cons c cs)
  show ?case
  proof (cases k)
    case 0
    with Cons.prems show ?thesis by (simp add: re_search_Cons lastChar_def)
  next
    case (Suc k')
    with Cons.prems(3) have first: "ms ic r prev (c # cs) = []"
      by (auto simp: lastChar_def dest: spec[of _ 0])
    have "\<forall>j<k'. ms ic r (lastChar (Some c) (take j cs)) (drop j cs) = []"
    proof (intro allI impI)
      fix j assume "j < k'"
      with Suc Cons.prems(3) have "ms ic r (lastChar prev (take (Suc j) (c # cs))) (drop (Suc j) (c # cs)) = []"
        by blast
      then show "ms ic r (lastChar (Some c) (take j cs)) (drop j cs) = []"
        by (simp add: lastChar_Cons)
    qed
    moreover from Suc Cons.prems(1,2) have "k' \<le> length cs"
      "ms ic r (lastChar (Some c) (take k' cs)) (drop k' cs) = x # rs"
      by (simp_all add: lastChar_Cons)
    ultimately have "re_search ic r (Some c) cs = Some (k', x)" by (intro Cons.IH)
    with first Suc show ?thesis by (simp add: re_search_Cons)
  qed
qed

lemma re_search_None:
  "\<forall>j\<le>length rest. ms ic r (lastChar prev (take j rest)) (drop j rest) = [] \<Longrightarrow>
   re_search ic r prev rest = None"
proof (induction rest arbitrary: prev)
  case Nil
  then show ?case by (simp add: re_search_Nil lastChar_def)
next
  case (Cons c cs)
  from Cons.prems have first: "ms ic r prev (c # cs) = []"
    by (auto simp: lastChar_def dest: spec[of _ 0])
  have "\<forall>j\<le>length cs. ms ic r (lastChar (Some c) (take j cs)) (drop j cs) = []"
  proof (intro allI impI)
    fix j assume "j \<le> length cs"
    with Cons.prems have "ms ic r (lastChar prev (take (Suc j) (c # cs))) (drop (Suc j) (c # cs)) = []"
      by (metis Suc_le_mono length_Cons)
    then show "ms ic r (lastChar (Some c) (take j cs)) (drop j cs) = []"
      by (simp add: lastChar_Cons)
  qed
  then have "re_search ic r (Some c) cs = None" by (rule Cons.IH)
  with first show ?case by (simp add: re_search_Cons)
qed

definition playerRe :: "citem list \<Rightarrow> regex" where
  "playerRe cls = Seq (Lit ''/player/'') (Seq (Cap (Rep (Pos cls) 1 None)) (Alt (Lit ''/'') Eoi))"

lemma sameText_length: "sameText l m \<Longrightarrow> length m = length l"
  by (simp add: sameText_def list_all2_lengthD)

lemma sameText_slash: "list_all2 (sameChar True) ''/'' m \<longleftrightarrow> m = ''/''"
  by (auto simp: list_all2_Cons1 sameChar_slash)

lemma playerRe_sound:
  assumes noslash: "\<not> inSet True (Pos cls) (CHR ''/'')"
    and mem: "(m, c) \<in> set (ms True (playerRe cls) prev rest)"
  shows "sameText ''/player/'' (take 8 rest)
         \<and> c = Some (takeWhile (\<lambda>c. c \<noteq> CHR ''/'') (drop 8 rest))
         \<and> takeWhile (\<lambda>c. c \<noteq> CHR ''/'') (drop 8 rest) \<noteq> []
         \<and> list_all (inSet True (Pos cls)) (takeWhile (\<lambda>c. c \<noteq> CHR ''/'') (drop 8 rest))"
proof -
  from mem obtain m1 seg m3 where
    m1: "prefix m1 rest" "list_all2 (sameChar True) ''/player/'' m1" and
    seg: "prefix seg (drop (length m1) rest)" "list_all (inSet True (Pos cls)) seg" "1 \<le> length seg" and
    c: "c = Some seg" and
    m3: "(prefix m3 (drop (length seg) (drop (length m1) rest)) \<and> m3 = ''/'')
         \<or> drop (length seg) (drop (length m1) rest) = []"
    unfolding playerRe_def
    by (auto simp: ms_Seq_iff ms_Lit_iff ms_Cap_iff ms_Rep_iff ms_Alt_iff ms_Eoi_iff sameText_slash
             simp del: ms.simps split: option.splits)
  from m1(2) have l1: "length m1 = 8" by (simp add: list_all2_lengthD[symmetric])
  with m1(1) have t8: "take 8 rest = m1" by (auto simp: prefix_def)
  from seg(1) l1 obtain rs where rs: "drop 8 rest = seg @ rs" by (auto simp: prefix_def)
  with m3 l1 have rs': "rs = [] \<or> (\<exists>t. rs = CHR ''/'' # t)" by (auto simp: prefix_def)
  from seg(2) noslash have ns: "\<forall>x\<in>set seg. x \<noteq> CHR ''/''" by (auto simp: list_all_iff)
  from rs' have tw: "takeWhile (\<lambda>c. c \<noteq> CHR ''/'') (drop 8 rest) = seg"
  proof
    assume "rs = []"
    with rs ns show ?thesis by simp
  next
    assume "\<exists>t. rs = CHR ''/'' # t"
    then obtain t where "rs = CHR ''/'' # t" by blast
    with rs ns show ?thesis by (simp add: takeWhile_tail)
  qed
  from seg(3) have "seg \<noteq> []" by auto
  with t8 m1(2) tw c seg(2) show ?thesis by (simp add: sameText_def)
qed

lemma playerRe_complete:
  assumes mk: "sameText ''/player/'' (take 8 rest)"
    and ne: "takeWhile (\<lambda>c. c \<noteq> CHR ''/'') (drop 8 rest) \<noteq> []"
    and cls: "list_all (inSet True (Pos cls)) (takeWhile (\<lambda>c. c \<noteq> CHR ''/'') (drop 8 rest))"
  shows "ms True (playerRe cls) prev rest \<noteq> []"
proof -
  let ?m1 = "take 8 rest"
  let ?seg = "takeWhile (\<lambda>c. c \<noteq> CHR ''/'') (drop 8 rest)"
  let ?rs = "dropWhile (\<lambda>c. c \<noteq> CHR ''/'') (drop 8 rest)"
  let ?m3 = "take 1 ?rs"
  from mk have l1: "length ?m1 = 8" by (simp add: sameText_def list_all2_lengthD[symmetric] del: length_take)
  have p1: "(?m1, None) \<in> set (ms True (Lit ''/player/'') prev rest)"
    using mk by (simp add: ms_Lit_iff take_is_prefix sameText_def del: ms.simps)
  have segp: "prefix ?seg (drop 8 rest)"
    by (metis prefixI takeWhile_dropWhile_id)
  from ne have "1 \<le> length ?seg" by (cases ?seg) auto
  with segp cls l1 have p2: "(?seg, Some ?seg) \<in> set (ms True (Cap (Rep (Pos cls) 1 None)) (lastChar prev ?m1) (drop (length ?m1) rest))"
    by (simp add: ms_Cap_iff ms_Rep_iff del: ms.simps length_take)
  have d: "drop (length ?seg) (drop 8 rest) = ?rs"
    by (metis append_eq_conv_conj takeWhile_dropWhile_id)
  have "?rs = [] \<or> hd ?rs = CHR ''/''"
    using hd_dropWhile[of "\<lambda>c. c \<noteq> CHR ''/''" "drop 8 rest"] by auto
  then have p3: "(?m3, None) \<in> set (ms True (Alt (Lit ''/'') Eoi) (lastChar (lastChar prev ?m1) ?seg) ?rs)"
  proof
    assume "?rs = []"
    then show ?thesis by (simp add: ms_Alt_iff ms_Eoi_iff del: ms.simps)
  next
    assume h: "hd ?rs = CHR ''/''"
    show ?thesis
    proof (cases ?rs)
      case Nil
      then show ?thesis by (simp add: ms_Alt_iff ms_Eoi_iff del: ms.simps)
    next
      case (Cons x xs)
      with h have t1: "take 1 ?rs = ''/''" by simp
      have "prefix (take 1 ?rs) ?rs" by (rule take_is_prefix)
      with t1 have "(take 1 ?rs, None) \<in> set (ms True (Lit ''/'') (lastChar (lastChar prev ?m1) ?seg) ?rs)"
        by (simp add: ms_Lit_iff sameChar_slash del: ms.simps One_nat_def)
      then show ?thesis by (simp only: ms_Alt_iff) simp
    qed
  qed
  from p2 p3 l1 d have "(?seg @ ?m3, Some ?seg) \<in> set (ms True (Seq (Cap (Rep (Pos cls) 1 None)) (Alt (Lit ''/'') Eoi)) (lastChar prev ?m1) (drop (length ?m1) rest))"
    by (subst ms_Seq_iff) (force simp del: ms.simps length_take)
  with p1 have "(?m1 @ ?seg @ ?m3, Some ?seg) \<in> set (ms True (playerRe cls) prev rest)"
    unfolding playerRe_def by (subst ms_Seq_iff) (force simp del: ms.simps length_take)
  then show ?thesis by auto
qed

lemma idRe_playerRe: "idRe = playerRe [Digit]"
  by (simp add: idRe_def playerRe_def)

lemma nameRe_playerRe:
  "nameRe = playerRe [Rng (CHR ''A'') (CHR ''Z''), Rng (CHR ''a'') (CHR ''z''),
                      Rng (CHR ''0'') (CHR ''9''), Single (CHR ''_'')]"
  by (simp add: nameRe_def playerRe_def)

lemma digit_noslash: "\<not> inSet True (Pos [Digit]) (CHR ''/'')"
  by (simp add: isDigit_def code_def)

lemma name_noslash:
  "\<not> inSet True (Pos [Rng (CHR ''A'') (CHR ''Z''), Rng (CHR ''a'') (CHR ''z''),
                       Rng (CHR ''0'') (CHR ''9''), Single (CHR ''_'')]) (CHR ''/'')"
  by (simp only: nameClass_iff) (simp add: isWordChar_def code_def)

lemma list_all_cong_iff: "(\<And>x. P x = Q x) \<Longrightarrow> list_all P xs = list_all Q xs"
  by (simp add: list_all_iff)
section \<open>Facts about the profile-URL parser\<close>

definition isNumeric :: "string \<Rightarrow> bool" where
  "isNumeric seg = (seg \<noteq> [] \<and> list_all isDigit seg)"

definition isName :: "string \<Rightarrow> bool" where
  "isName seg = (seg \<noteq> [] \<and> list_all isWordChar seg)"

definition segmentOf :: "string \<Rightarrow> string" where
  \<comment> \<open>the path segment at the start of a text: everything before the next slash\<close>
  "segmentOf rest = takeWhile (\<lambda>c. c \<noteq> CHR ''/'') rest"

fun markerSegments :: "string \<Rightarrow> string list" where
  "markerSegments [] = []"
| "markerSegments (c # cs) =
     (if sameText ''/player/'' (take 8 (c # cs)) then [segmentOf (drop 8 (c # cs))] else [])
     @ markerSegments cs"

fun firstSuffix :: "(string \<Rightarrow> bool) \<Rightarrow> string \<Rightarrow> string option" where
  "firstSuffix ok [] = (if ok [] then Some [] else None)"
| "firstSuffix ok (c # cs) = (if ok (c # cs) then Some (c # cs) else firstSuffix ok cs)"

lemma re_search_firstSuffix:
  assumes sound: "\<And>m c prev rest. (m, c) \<in> set (ms ic r prev rest) \<Longrightarrow> ok rest \<and> c = cap rest"
    and complete: "\<And>prev rest. ok rest \<Longrightarrow> ms ic r prev rest \<noteq> []"
  shows "map_option (\<lambda>(k, m, c). c) (re_search ic r prev s) = map_option cap (firstSuffix ok s)"
proof (induction s arbitrary: prev)
  case Nil
  show ?case
  proof (cases "ms ic r prev []")
    case Nil
    with complete[of "[]" prev] show ?thesis by (auto simp: re_search_Nil)
  next
    case (Cons x xs)
    obtain m c where "x = (m, c)" by (cases x) auto
    with Cons sound[of m c prev "[]"] show ?thesis by (simp add: re_search_Nil)
  qed
next
  case (Cons a s)
  show ?case
  proof (cases "ms ic r prev (a # s)")
    case Nil
    with complete[of "a # s" prev] have "\<not> ok (a # s)" by auto
    with Nil Cons.IH[of "Some a"] show ?thesis
      by (simp add: re_search_Cons option.map_comp comp_def case_prod_unfold)
  next
    case (Cons x xs)
    obtain m c where "x = (m, c)" by (cases x) auto
    with Cons sound[of m c prev "a # s"] show ?thesis by (simp add: re_search_Cons)
  qed
qed

definition playerOk :: "(string \<Rightarrow> bool) \<Rightarrow> string \<Rightarrow> bool" where
  "playerOk good rest = (sameText ''/player/'' (take 8 rest) \<and> good (segmentOf (drop 8 rest)))"

lemma find_markerSegments:
  "List.find good (markerSegments s) = map_option (\<lambda>rest. segmentOf (drop 8 rest)) (firstSuffix (playerOk good) s)"
proof (induction s)
  case Nil
  show ?case by (simp add: playerOk_def sameText_def)
next
  case (Cons c cs)
  then show ?case by (simp add: playerOk_def)
qed

lemma idRe_capture:
  "map_option snd (match_re True idRe s) = map_option Some (List.find isNumeric (markerSegments s))"
proof -
  have "map_option (\<lambda>(k, m, c). c) (re_search True idRe None s)
        = map_option (\<lambda>rest. Some (segmentOf (drop 8 rest))) (firstSuffix (playerOk isNumeric) s)"
  proof (rule re_search_firstSuffix)
    show "playerOk isNumeric rest \<and> c = Some (segmentOf (drop 8 rest))"
      if "(m, c) \<in> set (ms True idRe prev rest)" for m c prev rest
      using playerRe_sound[OF digit_noslash, of m c prev rest] that
      by (simp add: idRe_playerRe playerOk_def isNumeric_def segmentOf_def
            list_all_cong_iff[OF digitClass_iff] del: inSet.simps ms.simps)
    show "ms True idRe prev rest \<noteq> []" if "playerOk isNumeric rest" for prev rest
      using playerRe_complete[of rest "[Digit]" prev] that
      by (simp add: idRe_playerRe playerOk_def isNumeric_def segmentOf_def
            list_all_cong_iff[OF digitClass_iff] del: inSet.simps ms.simps)
  qed
  then show ?thesis
    by (simp add: match_re_def find_markerSegments option.map_comp comp_def case_prod_unfold)
qed

lemma nameRe_capture:
  "map_option snd (match_re True nameRe s) = map_option Some (List.find isName (markerSegments s))"
proof -
  have "map_option (\<lambda>(k, m, c). c) (re_search True nameRe None s)
        = map_option (\<lambda>rest. Some (segmentOf (drop 8 rest))) (firstSuffix (playerOk isName) s)"
  proof (rule re_search_firstSuffix)
    show "playerOk isName rest \<and> c = Some (segmentOf (drop 8 rest))"
      if "(m, c) \<in> set (ms True nameRe prev rest)" for m c prev rest
      using playerRe_sound[OF name_noslash, of m c prev rest] that
      by (simp add: nameRe_playerRe playerOk_def isName_def segmentOf_def
            list_all_cong_iff[OF nameClass_iff] del: inSet.simps ms.simps)
    show "ms True nameRe prev rest \<noteq> []" if "playerOk isName rest" for prev rest
      using playerRe_complete[of rest _ prev] that
      by (simp add: nameRe_playerRe playerOk_def isName_def segmentOf_def
            list_all_cong_iff[OF nameClass_iff] del: inSet.simps ms.simps)
  qed
  then show ?thesis
    by (simp add: match_re_def find_markerSegments option.map_comp comp_def case_prod_unfold)
qed

lemma parseRolimonsTarget_eq:
  "parseRolimonsTarget s =
     (case List.find isNumeric (markerSegments s) of
        Some d \<Rightarrow> \<lparr>userId = Some d, username = None\<rparr>
      | None \<Rightarrow> (case List.find isName (markerSegments s) of
                   Some w \<Rightarrow> \<lparr>userId = None, username = Some w\<rparr>
                 | None \<Rightarrow> \<lparr>userId = None, username = None\<rparr>))"
proof (cases "List.find isNumeric (markerSegments s)")
  case (Some d)
  with idRe_capture[of s] obtain m0 where "match_re True idRe s = Some (m0, Some d)" by auto
  with Some show ?thesis by (simp add: parseRolimonsTarget_def)
next
  case None
  with idRe_capture[of s] have no_id: "match_re True idRe s = None" by simp
  show ?thesis
  proof (cases "List.find isName (markerSegments s)")
    case (Some w)
    with nameRe_capture[of s] obtain m0 where "match_re True nameRe s = Some (m0, Some w)" by auto
    with Some None no_id show ?thesis by (simp add: parseRolimonsTarget_def)
  next
    case None
    with nameRe_capture[of s] have "match_re True nameRe s = None" by simp
    with None \<open>List.find isNumeric (markerSegments s) = None\<close> no_id show ?thesis
      by (simp add: parseRolimonsTarget_def)
  qed
qed



lemma markerSegments_sublist:
  "markerSegments s \<noteq> [] \<longleftrightarrow> (\<exists>mk. sameText ''/player/'' mk \<and> sublist mk s)"
proof
  assume "markerSegments s \<noteq> []"
  then show "\<exists>mk. sameText ''/player/'' mk \<and> sublist mk s"
  proof (induction s)
    case Nil
    then show ?case by simp
  next
    case (Cons c cs)
    show ?case
    proof (cases "sameText ''/player/'' (take 8 (c # cs))")
      case True
      have "prefix (take 8 (c # cs)) (c # cs)" by (rule take_is_prefix)
      then have "sublist (take 8 (c # cs)) (c # cs)" by (rule prefix_imp_sublist)
      with True show ?thesis by blast
    next
      case False
      with Cons.prems have "markerSegments cs \<noteq> []" by simp
      from Cons.IH[OF this] obtain mk where "sameText ''/player/'' mk" "sublist mk cs" by blast
      then have "sameText ''/player/'' mk \<and> sublist mk (c # cs)"
        by (simp add: sublist_Cons_right)
      then show ?thesis by blast
    qed
  qed
next
  assume "\<exists>mk. sameText ''/player/'' mk \<and> sublist mk s"
  then obtain mk ps ss where mk: "sameText ''/player/'' mk" and s: "s = ps @ mk @ ss"
    by (auto simp: sublist_def)
  from mk have len: "length mk = 8" by (simp add: sameText_length)
  have "markerSegments (ps @ mk @ ss) \<noteq> []"
  proof (induction ps)
    case Nil
    from len obtain c cs where cc: "mk @ ss = c # cs" by (cases mk) auto
    from len have "take 8 (mk @ ss) = mk" by simp
    with cc mk have "sameText ''/player/'' (take 8 (c # cs))" by simp
    with cc show ?case by simp
  next
    case (Cons p ps)
    then show ?case by simp
  qed
  with s show "markerSegments s \<noteq> []" by simp
qed


section \<open>Facts about the social patterns\<close>

text \<open>
  The seven patterns share one shape. \<open>platforms\<close> lists, for each label, its keywords and
  aliases, whether an \<open>@\<close> may precede the handle, the character class of the handle and
  the largest handle length; \<open>socialRe\<close> builds the pattern of that shape.
\<close>

fun alts :: "regex list \<Rightarrow> regex" where
  "alts [] = Rep (Pos []) 1 None"
| "alts [r] = r"
| "alts (r # rs) = Alt r (alts rs)"

definition socialRe :: "string list \<Rightarrow> bool \<Rightarrow> citem list \<Rightarrow> nat \<Rightarrow> regex" where
  "socialRe kws withAt cls mx =
     cat ([WordB, alts (map Lit kws), ws, sep, ws] @ (if withAt then [at] else [])
          @ [Cap (Rep (Pos cls) 2 (Some mx)), WordB])"

definition platforms :: "(string \<times> string list \<times> bool \<times> citem list \<times> nat) list" where
  "platforms =
    [(''Instagram'', [''ig'', ''insta'', ''instagram''], True, handleChars, 30),
     (''Twitter'', [''x'', ''twitter'', ''tweet''], True, handleChars, 30),
     (''Discord'', [''discord'', ''dc''], False, handleChars @ [Single (CHR ''#'')], 37),
     (''YouTube'', [''yt'', ''youtube''], True, handleChars @ [Single (CHR ''-'')], 60),
     (''TikTok'', [''tt'', ''tiktok''], True, handleChars, 30),
     (''Facebook'', [''fb'', ''facebook''], True, handleChars, 50),
     (''Telegram'', [''tg'', ''telegram''], True, handleChars, 50)]"

lemma SOCIAL_PATTERNS_platforms:
  "SOCIAL_PATTERNS = map (\<lambda>(name, kws, withAt, cls, mx). (name, socialRe kws withAt cls mx)) platforms"
  by (simp add: SOCIAL_PATTERNS_def platforms_def socialRe_def)

definition matchesText :: "regex \<Rightarrow> char option \<Rightarrow> string \<Rightarrow> string \<Rightarrow> bool" where
  "matchesText r prev rest m = (\<exists>c. (m, c) \<in> set (ms True r prev rest))"

lemma matchesText_Seq:
  "matchesText a prev (m1 @ rest) m1 \<Longrightarrow> matchesText b (lastChar prev m1) rest m2 \<Longrightarrow>
   matchesText (Seq a b) prev (m1 @ rest) (m1 @ m2)"
  unfolding matchesText_def by (subst ms_Seq_iff) (force simp del: ms.simps)

lemma matchesText_Lit: "sameText l m \<Longrightarrow> matchesText (Lit l) prev (m @ rest) m"
  unfolding matchesText_def by (simp add: ms_Lit_iff sameText_def del: ms.simps)

lemma matchesText_Rep:
  "list_all (inSet True cs) m \<Longrightarrow> mn \<le> length m \<Longrightarrow> (case mx of None \<Rightarrow> True | Some x \<Rightarrow> length m \<le> x) \<Longrightarrow>
   matchesText (Rep cs mn mx) prev (m @ rest) m"
  unfolding matchesText_def by (simp add: ms_Rep_iff del: ms.simps)

lemma matchesText_Cap: "matchesText r prev rest m \<Longrightarrow> matchesText (Cap r) prev rest m"
  unfolding matchesText_def by (auto simp: ms_Cap_iff simp del: ms.simps)

lemma matchesText_WordB:
  "isWordAt prev \<noteq> isWordAt (nextChar rest) \<Longrightarrow> matchesText WordB prev rest []"
  unfolding matchesText_def by simp

lemma matchesText_Alt:
  "matchesText a prev rest m \<or> matchesText b prev rest m \<Longrightarrow> matchesText (Alt a b) prev rest m"
  unfolding matchesText_def by auto

lemma matchesText_alts:
  "kw \<in> set kws \<Longrightarrow> sameText kw m \<Longrightarrow> matchesText (alts (map Lit kws)) prev (m @ rest) m"
proof (induction kws)
  case Nil
  then show ?case by simp
next
  case (Cons k ks)
  show ?case
  proof (cases ks)
    case Nil
    with Cons.prems show ?thesis by (simp add: matchesText_Lit del: ms.simps)
  next
    case (Cons k' ks')
    have "matchesText (Lit k) prev (m @ rest) m \<or> matchesText (alts (map Lit ks)) prev (m @ rest) m"
    proof (cases "kw = k")
      case True
      with Cons.prems show ?thesis by (simp add: matchesText_Lit)
    next
      case False
      with Cons.prems Cons.IH show ?thesis by simp
    qed
    then have "matchesText (Alt (Lit k) (alts (map Lit ks))) prev (m @ rest) m"
      by (rule matchesText_Alt)
    with Cons show ?thesis by simp
  qed
qed

lemma alts_sublist:
  "(m, c) \<in> set (ms True (alts (map Lit kws)) prev rest) \<Longrightarrow>
   \<exists>kw \<in> set kws. sameText kw m \<and> prefix m rest"
proof (induction kws)
  case Nil
  then have "list_all (inSet True (Pos [])) m" "1 \<le> length m"
    by (simp_all add: ms_Rep_iff del: ms.simps)
  then show ?case by (cases m) auto
next
  case (Cons k ks)
  show ?case
  proof (cases ks)
    case Nil
    with Cons.prems show ?thesis by (simp add: ms_Lit_iff sameText_def del: ms.simps)
  next
    case (Cons k' ks')
    with Cons.prems have "(m, c) \<in> set (ms True (Lit k) prev rest)
                          \<or> (m, c) \<in> set (ms True (alts (map Lit ks)) prev rest)"
      by auto
    then show ?thesis
    proof
      assume "(m, c) \<in> set (ms True (Lit k) prev rest)"
      then show ?thesis by (simp add: ms_Lit_iff sameText_def del: ms.simps)
    next
      assume "(m, c) \<in> set (ms True (alts (map Lit ks)) prev rest)"
      from Cons.IH[OF this] show ?thesis by auto
    qed
  qed
qed

lemma lastChar_nonempty: "h \<noteq> [] \<Longrightarrow> lastChar prev h = Some (last h)"
  by (simp add: lastChar_def)

lemma space_class: "inSet True (Pos [Space]) c \<longleftrightarrow> isSpace c"
  by simp

lemma sameChar_refl: "sameChar True c c"
  by (simp add: sameChar_def)

lemma social_tail_matches:
  assumes sp1: "list_all isSpace sp1" and sp: "sp = [] \<or> sp = '':'' \<or> sp = ''-''"
    and sp2: "list_all isSpace sp2" and a: "a = [] \<or> (withAt \<and> a = ''@'')"
    and h: "2 \<le> length h" "length h \<le> mx" "list_all (inSet True (Pos cls)) h"
    and b: "isWordChar (last h) \<noteq> isWordAt (nextChar post)"
  shows "matchesText (cat ([ws, sep, ws] @ (if withAt then [at] else [])
                          @ [Cap (Rep (Pos cls) 2 (Some mx)), WordB]))
            prev (sp1 @ sp @ sp2 @ a @ h @ post) (sp1 @ sp @ sp2 @ a @ h)"
proof -
  from h(1) have hne: "h \<noteq> []" by auto
  have m_ws1: "matchesText ws p (sp1 @ r) sp1" for p r
    unfolding ws_def using sp1 by (intro matchesText_Rep) (simp_all add: list_all_iff)
  have m_ws2: "matchesText ws p (sp2 @ r) sp2" for p r
    unfolding ws_def using sp2 by (intro matchesText_Rep) (simp_all add: list_all_iff)
  have m_sep: "matchesText sep p (sp @ r) sp" for p r
    unfolding sep_def using sp by (intro matchesText_Rep) (auto simp: sameChar_refl)
  have m_h: "matchesText (Cap (Rep (Pos cls) 2 (Some mx))) p (h @ r) h" for p r
    using h by (intro matchesText_Cap matchesText_Rep) simp_all
  have m_b: "matchesText WordB (lastChar p h) post []" for p
    using b hne by (intro matchesText_WordB) (simp add: lastChar_nonempty isWordAt_def)
  have m_hb: "matchesText (Seq (Cap (Rep (Pos cls) 2 (Some mx))) WordB) p (h @ post) h" for p
    using matchesText_Seq[OF m_h m_b, of p] by simp
  have m_rest: "matchesText (cat ((if withAt then [at] else []) @ [Cap (Rep (Pos cls) 2 (Some mx)), WordB]))
                   p (a @ h @ post) (a @ h)" for p
  proof (cases withAt)
    case True
    have "matchesText at p (a @ r) a" for r
      unfolding at_def using a by (intro matchesText_Rep) (auto simp: sameChar_refl)
    from matchesText_Seq[OF this m_hb] True show ?thesis by simp
  next
    case False
    with a have "a = []" by simp
    with False m_hb show ?thesis by simp
  qed
  have c1: "cat ([ws, sep, ws] @ (if withAt then [at] else []) @ [Cap (Rep (Pos cls) 2 (Some mx)), WordB])
        = Seq ws (Seq sep (Seq ws (cat ((if withAt then [at] else []) @ [Cap (Rep (Pos cls) 2 (Some mx)), WordB]))))"
    by simp
  from matchesText_Seq[OF m_ws2 m_rest]
  have "matchesText (Seq ws (cat ((if withAt then [at] else []) @ [Cap (Rep (Pos cls) 2 (Some mx)), WordB])))
            p (sp2 @ a @ h @ post) (sp2 @ a @ h)" for p by simp
  from matchesText_Seq[OF m_sep this]
  have "matchesText (Seq sep (Seq ws (cat ((if withAt then [at] else []) @ [Cap (Rep (Pos cls) 2 (Some mx)), WordB]))))
            p (sp @ sp2 @ a @ h @ post) (sp @ sp2 @ a @ h)" for p by simp
  from matchesText_Seq[OF m_ws1 this] show ?thesis unfolding c1 by simp
qed

lemma re_search_exists:
  "ms ic r (lastChar prev pre) rest \<noteq> [] \<Longrightarrow> re_search ic r prev (pre @ rest) \<noteq> None"
proof (induction pre arbitrary: prev)
  case Nil
  then show ?case by (cases rest) (auto simp: re_search_Nil re_search_Cons lastChar_def split: list.splits)
next
  case (Cons p pre)
  from Cons.prems have "ms ic r (lastChar (Some p) pre) rest \<noteq> []" by (simp add: lastChar_Cons)
  from Cons.IH[OF this] show ?case by (auto simp: re_search_Cons split: list.splits)
qed

lemma lower_first_word:
  assumes "sameChar True a c" "97 \<le> code a" "code a \<le> 122"
  shows "isWordChar c"
proof -
  from assms have "canonicalCode (code c) = code a - 32"
    by (simp add: sameChar_def canonicalize_def canon_lower)
  with assms(2,3) have "65 \<le> canonicalCode (code c) \<and> canonicalCode (code c) \<le> 90" by simp
  with canon_in_upper[of "code c"] code_range[of c] show ?thesis
    by (auto simp: isWordChar_def Let_def)
qed

lemma keyword_first:
  "(name, kws, withAt, cls, mx) \<in> set platforms \<Longrightarrow> kw \<in> set kws \<Longrightarrow>
   kw \<noteq> [] \<and> 97 \<le> code (hd kw) \<and> code (hd kw) \<le> 122"
  by (auto simp: platforms_def code_def)

lemma socialRe_Seq:
  "socialRe kws withAt cls mx =
     Seq WordB (Seq (alts (map Lit kws))
       (cat ([ws, sep, ws] @ (if withAt then [at] else []) @ [Cap (Rep (Pos cls) 2 (Some mx)), WordB])))"
  by (simp add: socialRe_def)

lemma socialRe_matches:
  assumes p: "(name, kws, withAt, cls, mx) \<in> set platforms"
    and kw: "kw \<in> set kws" "sameText kw kw'" and before: "\<not> isWordAt prev"
    and sp1: "list_all isSpace sp1" and sp: "sp = [] \<or> sp = '':'' \<or> sp = ''-''"
    and sp2: "list_all isSpace sp2" and a: "a = [] \<or> (withAt \<and> a = ''@'')"
    and h: "2 \<le> length h" "length h \<le> mx" "list_all (inSet True (Pos cls)) h"
    and b: "isWordChar (last h) \<noteq> isWordAt (nextChar post)"
  shows "ms True (socialRe kws withAt cls mx) prev (kw' @ sp1 @ sp @ sp2 @ a @ h @ post) \<noteq> []"
proof -
  let ?rest = "sp1 @ sp @ sp2 @ a @ h @ post"
  from keyword_first[OF p kw(1)] have k1: "kw \<noteq> []" "97 \<le> code (hd kw)" "code (hd kw) \<le> 122"
    by simp_all
  from kw(2) k1(1) obtain c cs x xs where kk: "kw = c # cs" "kw' = x # xs" "sameChar True c x"
    by (cases kw; cases kw') (auto simp: sameText_def)
  with k1 have "isWordChar x" by (auto intro: lower_first_word)
  with kk before have "isWordAt prev \<noteq> isWordAt (nextChar (kw' @ ?rest))"
    by (simp add: isWordAt_def nextChar_def)
  then have m0: "matchesText WordB prev ([] @ kw' @ ?rest) []" by (simp add: matchesText_WordB)
  have m1: "matchesText (alts (map Lit kws)) p' (kw' @ r) kw'" for p' r
    using kw by (rule matchesText_alts)
  have m2: "matchesText (cat ([ws, sep, ws] @ (if withAt then [at] else [])
                          @ [Cap (Rep (Pos cls) 2 (Some mx)), WordB])) p' ?rest (sp1 @ sp @ sp2 @ a @ h)" for p'
    using sp1 sp sp2 a h b by (rule social_tail_matches)
  from matchesText_Seq[OF m0 matchesText_Seq[OF m1 m2]]
  have "matchesText (socialRe kws withAt cls mx) prev (kw' @ ?rest) (kw' @ sp1 @ sp @ sp2 @ a @ h)"
    by (simp add: socialRe_Seq del: ms.simps cat.simps)
  then show ?thesis by (auto simp: matchesText_def simp del: ms.simps)
qed

lemma entryOf_type: "f \<in> set (entryOf text q) \<Longrightarrow> type f = fst q"
  by (auto simp: entryOf_def split: option.splits)

lemma filter_other_entries:
  "n \<notin> fst ` set ps \<Longrightarrow> filter (\<lambda>f. type f = n) (concat (map (entryOf text) ps)) = []"
proof (induction ps)
  case Nil
  show ?case by simp
next
  case (Cons p ps)
  then have "fst p \<noteq> n" by auto
  then have "filter (\<lambda>f. type f = n) (entryOf text p) = []"
    by (auto simp: filter_empty_conv dest: entryOf_type)
  with Cons show ?case by simp
qed

lemma filter_entries:
  "distinct (map fst ps) \<Longrightarrow> (n, r) \<in> set ps \<Longrightarrow>
   filter (\<lambda>f. type f = n) (concat (map (entryOf text) ps)) = entryOf text (n, r)"
proof (induction ps)
  case Nil
  then show ?case by simp
next
  case (Cons p ps)
  show ?case
  proof (cases "p = (n, r)")
    case True
    with Cons.prems(1) have "n \<notin> fst ` set ps" by simp
    then have "filter (\<lambda>f. type f = n) (concat (map (entryOf text) ps)) = []"
      by (rule filter_other_entries)
    moreover have "filter (\<lambda>f. type f = n) (entryOf text (n, r)) = entryOf text (n, r)"
      by (auto simp: filter_id_conv dest: entryOf_type)
    ultimately show ?thesis using True by simp
  next
    case False
    with Cons.prems have in_ps: "(n, r) \<in> set ps" by simp
    then have "n \<in> fst ` set ps" by (rule image_eqI[rotated]) simp
    with Cons.prems(1) have "fst p \<noteq> n" by auto
    then have "filter (\<lambda>f. type f = n) (entryOf text p) = []"
      by (auto simp: filter_empty_conv dest: entryOf_type)
    with Cons.IH in_ps Cons.prems(1) show ?thesis by simp
  qed
qed

lemma found_for_label:
  assumes "(name, kws, withAt, cls, mx) \<in> set platforms"
  shows "filter (\<lambda>f. type f = name) (found (extractConnectionsFromBio text))
         = entryOf text (name, socialRe kws withAt cls mx)"
proof -
  let ?f = "\<lambda>(name, kws, withAt, cls, mx). (name, socialRe kws withAt cls mx)"
  have "?f (name, kws, withAt, cls, mx) \<in> ?f ` set platforms"
    using assms by (rule imageI)
  then have m: "(name, socialRe kws withAt cls mx) \<in> set SOCIAL_PATTERNS"
    by (simp add: SOCIAL_PATTERNS_platforms)
  have "distinct (map fst SOCIAL_PATTERNS)" by (simp add: names_SOCIAL_PATTERNS)
  from this m show ?thesis unfolding found_concat by (rule filter_entries)
qed


subsection \<open>The characters of the handle classes\<close>

lemma sameChar_ascii_other:
  assumes "code a < 65 \<or> (90 < code a \<and> code a < 97) \<or> (122 < code a \<and> code a < 128)"
  shows "sameChar True a c \<longleftrightarrow> c = a"
proof -
  have "canonicalCode (code a) = canonicalCode (code c) \<longleftrightarrow> code c = code a"
    using canon_ascii_other[of "code c" "code a"] code_range[of c] code_range[of a] assms
    by simp
  then show ?thesis by (simp add: sameChar_def canonicalize_def code_eq_iff)
qed

lemma sameChar_dot: "sameChar True (CHR ''.'') c \<longleftrightarrow> c = CHR ''.''"
  by (rule sameChar_ascii_other) (simp add: code_def)

lemma handleChars_iff:
  "inSet True (Pos handleChars) c \<longleftrightarrow> isWordChar c \<or> c = CHR ''.''"
proof -
  have "inSet True (Pos handleChars) c \<longleftrightarrow>
          ((65 \<le> code c \<and> code c \<le> 90) \<or> (97 \<le> code c \<and> code c \<le> 122))
          \<or> isDigit c \<or> c = CHR ''.'' \<or> code c = 95"
    by (simp add: handleChars_def in_lower_class in_digit_class sameChar_underscore
        sameChar_dot del: inItem.simps(1))
  then show ?thesis by (auto simp: isWordChar_def isDigit_def Let_def)
qed

lemma sameChar_hash: "sameChar True (CHR ''#'') c \<longleftrightarrow> c = CHR ''#''"
  by (rule sameChar_ascii_other) (simp add: code_def)

lemma sameChar_dash: "sameChar True (CHR ''-'') c \<longleftrightarrow> c = CHR ''-''"
  by (rule sameChar_ascii_other) (simp add: code_def)

lemma sameChar_colon: "sameChar True (CHR '':'') c \<longleftrightarrow> c = CHR '':''"
  by (rule sameChar_ascii_other) (simp add: code_def)

lemma sameChar_at: "sameChar True (CHR ''@'') c \<longleftrightarrow> c = CHR ''@''"
  by (rule sameChar_ascii_other) (simp add: code_def)

lemma inSet_snoc:
  "inSet ic (Pos (xs @ [Single a])) c \<longleftrightarrow> inSet ic (Pos xs) c \<or> sameChar ic a c"
  by simp

lemma class_iff:
  assumes "(name, kws, withAt, cls, mx) \<in> set platforms"
  shows "inSet True (Pos cls) c \<longleftrightarrow>
           isWordChar c \<or> c = CHR ''.'' \<or> (name = ''Discord'' \<and> c = CHR ''#'')
           \<or> (name = ''YouTube'' \<and> c = CHR ''-'')"
proof -
  from assms consider
      "cls = handleChars" "name \<noteq> ''Discord''" "name \<noteq> ''YouTube''"
    | "cls = handleChars @ [Single (CHR ''#'')]" "name = ''Discord''"
    | "cls = handleChars @ [Single (CHR ''-'')]" "name = ''YouTube''"
    by (auto simp: platforms_def)
  then show ?thesis
  proof cases
    case 1
    then show ?thesis by (simp add: handleChars_iff del: inSet.simps)
  next
    case 2
    then show ?thesis by (simp only: inSet_snoc handleChars_iff sameChar_hash) auto
  next
    case 3
    then show ?thesis by (simp only: inSet_snoc handleChars_iff sameChar_dash) auto
  qed
qed

lemma sep_class: "inSet True (Pos [Single (CHR '':''), Single (CHR ''-'')]) c \<longleftrightarrow> c = CHR '':'' \<or> c = CHR ''-''"
  by (simp add: sameChar_colon sameChar_dash)

lemma at_class: "inSet True (Pos [Single (CHR ''@'')]) c \<longleftrightarrow> c = CHR ''@''"
  by (simp add: sameChar_at)

lemma class_word:
  "(name, kws, withAt, cls, mx) \<in> set platforms \<Longrightarrow> isWordChar c \<Longrightarrow> inSet True (Pos cls) c"
  by (simp add: class_iff del: inSet.simps)

lemma class_plain:
  assumes "(name, kws, withAt, cls, mx) \<in> set platforms" "inSet True (Pos cls) c"
  shows "\<not> isSpace c \<and> c \<noteq> CHR '':'' \<and> c \<noteq> CHR ''@''"
proof -
  from assms have "isWordChar c \<or> c = CHR ''.'' \<or> c = CHR ''#'' \<or> c = CHR ''-''"
    by (auto simp add: class_iff simp del: inSet.simps)
  then show ?thesis
    by (auto simp: isWordChar_def isSpace_def Let_def code_def)
qed

lemma not_space_punct:
  "\<not> isSpace (CHR '':'')" "\<not> isSpace (CHR ''-'')" "\<not> isSpace (CHR ''@'')"
  by (simp_all add: isSpace_def code_def)

subsection \<open>The first match at a position\<close>

text \<open>
  The match the engine reports at a position is the head of the list of matches. For a
  sequence it is built from the first match of the first part when the rest of the pattern
  matches after it; a greedy quantifier first tries its longest run.
\<close>

definition firstMatch :: "regex \<Rightarrow> char option \<Rightarrow> string \<Rightarrow> (string \<times> string option) option" where
  "firstMatch r prev rest = (case ms True r prev rest of [] \<Rightarrow> None | x # _ \<Rightarrow> Some x)"

lemma firstMatch_Seq:
  assumes a: "firstMatch a prev (m1 @ rest) = Some (m1, c1)"
    and b: "firstMatch b (lastChar prev m1) rest = Some (m2, c2)"
  shows "firstMatch (Seq a b) prev (m1 @ rest) = Some (m1 @ m2, case c2 of None \<Rightarrow> c1 | Some _ \<Rightarrow> c2)"
proof -
  from a obtain xs where xs: "ms True a prev (m1 @ rest) = (m1, c1) # xs"
    by (auto simp: firstMatch_def split: list.splits)
  from b obtain ys where ys: "ms True b (lastChar prev m1) rest = (m2, c2) # ys"
    by (auto simp: firstMatch_def split: list.splits)
  from xs ys show ?thesis by (simp add: firstMatch_def)
qed

lemma takeWhile_run:
  "list_all P m \<Longrightarrow> rest = [] \<or> \<not> P (hd rest) \<Longrightarrow> takeWhile P (m @ rest) = m"
  by (induction m) (auto simp: takeWhile_eq_Nil_iff)

lemma firstMatch_Rep:
  assumes n: "n = (case mx of None \<Rightarrow> length (takeWhile (inSet True cs) rest)
                   | Some x \<Rightarrow> min (length (takeWhile (inSet True cs) rest)) x)"
    and mn: "mn \<le> n"
  shows "firstMatch (Rep cs mn mx) prev rest = Some (take n rest, None)"
proof -
  from mn have "[mn ..< Suc n] = [mn ..< n] @ [n]" by simp
  then have "rev [mn ..< Suc n] = n # rev [mn ..< n]" by simp
  with n mn show ?thesis by (simp add: firstMatch_def Let_def del: upt_Suc)
qed

lemma firstMatch_star:
  assumes "list_all (inSet True cs) m" "rest = [] \<or> \<not> inSet True cs (hd rest)"
  shows "firstMatch (Rep cs 0 None) prev (m @ rest) = Some (m, None)"
proof -
  from assms have "takeWhile (inSet True cs) (m @ rest) = m" by (rule takeWhile_run)
  then show ?thesis by (simp add: firstMatch_Rep[where n = "length m"])
qed

lemma firstMatch_opt:
  assumes "m = [] \<or> (\<exists>c. m = [c] \<and> inSet True cs c)" "m = [] \<longrightarrow> rest = [] \<or> \<not> inSet True cs (hd rest)"
  shows "firstMatch (Rep cs 0 (Some 1)) prev (m @ rest) = Some (m, None)"
proof (cases m)
  case Nil
  with assms(2) have "takeWhile (inSet True cs) (m @ rest) = []"
    by (auto simp: takeWhile_eq_Nil_iff)
  with Nil show ?thesis by (simp add: firstMatch_Rep[where n = 0])
next
  case (Cons c cs')
  with assms(1) have m: "m = [c]" "inSet True cs c" by auto
  then have "1 \<le> length (takeWhile (inSet True cs) (m @ rest))" by simp
  then have "min (length (takeWhile (inSet True cs) (m @ rest))) 1 = 1" by simp
  with m show ?thesis by (simp add: firstMatch_Rep[where n = 1] del: takeWhile.simps)
qed

lemma firstMatch_WordB:
  "isWordAt prev \<noteq> isWordAt (nextChar rest) \<Longrightarrow> firstMatch WordB prev rest = Some ([], None)"
  by (simp add: firstMatch_def)

lemma ms_alts_concat:
  "ms True (alts (map Lit kws)) prev rest = concat (map (\<lambda>kw. ms True (Lit kw) prev rest) kws)"
proof (induction kws)
  case Nil
  have "takeWhile (inSet True (Pos [])) rest = []" by (simp add: takeWhile_eq_Nil_iff)
  then show ?case by simp
next
  case (Cons k ks)
  then show ?case by (cases ks) (simp_all del: ms.simps(1))
qed

lemma concat_first:
  "\<forall>x \<in> set xs. f x = [] \<or> f x = [y] \<Longrightarrow> \<exists>x \<in> set xs. f x = [y] \<Longrightarrow>
   \<exists>others. concat (map f xs) = y # others"
proof (induction xs)
  case Nil
  then show ?case by simp
next
  case (Cons x xs)
  show ?case
  proof (cases "f x = [y]")
    case True
    then show ?thesis by simp
  next
    case False
    with Cons.prems have "f x = []" "\<exists>x \<in> set xs. f x = [y]" "\<forall>x \<in> set xs. f x = [] \<or> f x = [y]"
      by auto
    with Cons.IH show ?thesis by simp
  qed
qed

lemma firstMatch_alts_same:
  assumes kw: "kw \<in> set kws" "sameText kw m"
    and others: "\<forall>kw2 \<in> set kws. litPrefix True kw2 (m @ rest) \<noteq> None \<longrightarrow> sameText kw2 m"
  shows "firstMatch (alts (map Lit kws)) prev (m @ rest) = Some (m, None)"
proof -
  let ?f = "\<lambda>kw. ms True (Lit kw) prev (m @ rest)"
  have same: "litPrefix True k (m @ rest) = Some m" if "sameText k m" for k
    using that by (simp add: litPrefix_iff sameText_def)
  have "?f x = [] \<or> ?f x = [(m, None)]" if "x \<in> set kws" for x
  proof (cases "litPrefix True x (m @ rest)")
    case None
    then show ?thesis by simp
  next
    case (Some y)
    with others that have "sameText x m" by auto
    from same[OF this] show ?thesis by simp
  qed
  then have a: "\<forall>x \<in> set kws. ?f x = [] \<or> ?f x = [(m, None)]" by blast
  from same[OF kw(2)] have "?f kw = [(m, None)]" by simp
  with kw(1) have "\<exists>x \<in> set kws. ?f x = [(m, None)]" by (rule bexI[rotated])
  with a obtain os where "concat (map ?f kws) = (m, None) # os"
    using concat_first[of kws ?f "(m, None)"] by blast
  then show ?thesis by (simp add: firstMatch_def ms_alts_concat del: ms.simps)
qed

lemma takeWhile_drop:
  "i \<le> length (takeWhile P xs) \<Longrightarrow> takeWhile P (drop i xs) = drop i (takeWhile P xs)"
proof (induction xs arbitrary: i)
  case Nil
  show ?case by simp
next
  case (Cons x xs)
  then show ?case by (cases i) (auto split: if_splits)
qed

lemma take_takeWhile:
  "i \<le> length (takeWhile P xs) \<Longrightarrow> take i xs = take i (takeWhile P xs)"
proof (induction xs arbitrary: i)
  case Nil
  show ?case by simp
next
  case (Cons x xs)
  then show ?case by (cases i) (auto split: if_splits)
qed

lemma next_not_word:
  assumes "list_all (\<lambda>c. \<not> isWordChar c) (takeWhile P q)" "\<And>c. isWordChar c \<Longrightarrow> P c"
  shows "\<not> isWordAt (nextChar q)"
proof (cases q)
  case Nil
  then show ?thesis by (simp add: nextChar_def isWordAt_def)
next
  case (Cons c cs)
  with assms show ?thesis by (cases "P c") (auto simp: nextChar_def isWordAt_def)
qed

lemma concat_map_if:
  "concat (map (\<lambda>k. if P k then [g k] else []) xs) = map g (filter P xs)"
  by (induction xs) auto

lemma map_if_distrib: "map f (if b then xs else ys) = (if b then map f xs else map f ys)"
  by simp

lemma ms_handle:
  "ms True (Seq (Cap (Rep cs mn (Some mx))) WordB) prev rest =
     (let n = min (length (takeWhile (inSet True cs) rest)) mx in
      if n < mn then []
      else map (\<lambda>k. (take k rest, Some (take k rest)))
             (filter (\<lambda>k. isWordAt (lastChar prev (take k rest)) \<noteq> isWordAt (nextChar (drop k rest)))
                (rev [mn ..< Suc n])))"
proof -
  let ?n = "min (length (takeWhile (inSet True cs) rest)) mx"
  have len: "k \<le> ?n \<Longrightarrow> length (take k rest) = k" for k
    using length_takeWhile_le[of "inSet True cs" rest] by simp
  have "ms True (Seq (Cap (Rep cs mn (Some mx))) WordB) prev rest =
        (if ?n < mn then []
         else concat (map (\<lambda>k. if isWordAt (lastChar prev (take k rest))
                                    \<noteq> isWordAt (nextChar (drop (length (take k rest)) rest))
                                 then [(take k rest, Some (take k rest))] else [])
                        (rev [mn ..< Suc ?n])))"
    by (simp add: Let_def comp_def map_if_distrib del: upt_Suc length_take cong: if_cong)
  also have "\<dots> = (if ?n < mn then []
         else concat (map (\<lambda>k. if isWordAt (lastChar prev (take k rest))
                                    \<noteq> isWordAt (nextChar (drop k rest))
                                 then [(take k rest, Some (take k rest))] else [])
                        (rev [mn ..< Suc ?n])))"
  proof -
    have "map (\<lambda>k. if isWordAt (lastChar prev (take k rest))
                                    \<noteq> isWordAt (nextChar (drop (length (take k rest)) rest))
                                 then [(take k rest, Some (take k rest))] else [])
                        (rev [mn ..< Suc ?n])
        = map (\<lambda>k. if isWordAt (lastChar prev (take k rest))
                                    \<noteq> isWordAt (nextChar (drop k rest))
                                 then [(take k rest, Some (take k rest))] else [])
                        (rev [mn ..< Suc ?n])"
    proof (rule map_cong[OF refl])
      fix k assume "k \<in> set (rev [mn ..< Suc ?n])"
      then have "k \<le> ?n" by (auto simp del: upt_Suc)
      then have "length (take k rest) = k" by (rule len)
      then show "(if isWordAt (lastChar prev (take k rest))
                                    \<noteq> isWordAt (nextChar (drop (length (take k rest)) rest))
                                 then [(take k rest, Some (take k rest))] else [])
         = (if isWordAt (lastChar prev (take k rest))
                                    \<noteq> isWordAt (nextChar (drop k rest))
                                 then [(take k rest, Some (take k rest))] else [])"
        by (simp only:)
    qed
    then show ?thesis by (simp only:)
  qed
  finally show ?thesis by (simp only: concat_map_if Let_def)
qed

lemma filter_first:
  assumes "\<forall>k \<in> set xs. \<not> P k" "P y"
  shows "filter P (xs @ y # ys) = y # filter P ys"
  using assms by (simp add: filter_empty_conv)

lemma firstMatch_handle:
  assumes word: "\<And>c. isWordChar c \<Longrightarrow> inSet True cs c"
    and h: "2 \<le> length h" "length h \<le> mx" "list_all (inSet True cs) h"
    and lst: "isWordChar (last h)"
    and ext: "list_all (\<lambda>c. \<not> isWordChar c) (takeWhile (inSet True cs) post)"
  shows "firstMatch (Seq (Cap (Rep cs 2 (Some mx))) WordB) prev (h @ post) = Some (h, Some h)"
proof -
  let ?P = "inSet True cs"
  let ?rest = "h @ post"
  let ?E = "takeWhile ?P post"
  let ?L = "length h"
  let ?n = "min (length (takeWhile ?P ?rest)) mx"
  let ?B = "\<lambda>k. isWordAt (lastChar prev (take k ?rest)) \<noteq> isWordAt (nextChar (drop k ?rest))"
  from h(1) have hne: "h \<noteq> []" by auto
  from h(3) have run: "takeWhile ?P ?rest = h @ ?E"
    by (simp add: takeWhile_append2 list_all_iff)
  then have n: "?n = min (?L + length ?E) mx" by simp
  with h(2) have Ln: "?L \<le> ?n" by simp
  have notword: "\<not> isWordAt (nextChar (drop i post))" if "i \<le> length ?E" for i
  proof -
    from that have "takeWhile ?P (drop i post) = drop i ?E" by (rule takeWhile_drop)
    moreover have "list_all (\<lambda>c. \<not> isWordChar c) (drop i ?E)"
      using ext by (auto simp: list_all_iff dest: in_set_dropD)
    ultimately show ?thesis using word by (intro next_not_word[where P = ?P]) simp_all
  qed
  have BL: "?B ?L"
    using notword[of 0] lst hne by (simp add: lastChar_def isWordAt_def)
  have nB: "\<not> ?B k" if "k \<in> set (rev [Suc ?L ..< Suc ?n])" for k
  proof -
    from that have k: "?L < k" "k \<le> ?n" by (auto simp del: upt_Suc)
    define i where "i = k - ?L"
    with k n have i: "0 < i" "i \<le> length ?E" "k = ?L + i" by auto
    have tk: "take k ?rest = h @ take i ?E"
      using i take_takeWhile[of i ?P post] by simp
    from i have ne: "take i ?E \<noteq> []" by auto
    then have "last (take i ?E) \<in> set (take i ?E)" by (rule last_in_set)
    then have "last (take i ?E) \<in> set ?E" by (rule in_set_takeD)
    with ext have "\<not> isWordChar (last (take i ?E))" by (auto simp: list_all_iff)
    with tk ne have a: "\<not> isWordAt (lastChar prev (take k ?rest))"
      by (simp add: lastChar_def isWordAt_def)
    from i have "drop k ?rest = drop i post" by simp
    with notword[OF i(2)] have "\<not> isWordAt (nextChar (drop k ?rest))" by simp
    with a show ?thesis by simp
  qed
  from h(1) Ln have "[2 ..< ?L + (Suc ?n - ?L)] = [2 ..< ?L] @ [?L ..< ?L + (Suc ?n - ?L)]"
    by (intro upt_add_eq_append) simp
  moreover have "?L + (Suc ?n - ?L) = Suc ?n"
    by (rule le_add_diff_inverse[OF le_SucI[OF Ln]])
  moreover have "[?L ..< Suc ?n] = ?L # [Suc ?L ..< Suc ?n]"
    by (rule upt_conv_Cons[OF le_imp_less_Suc[OF Ln]])
  ultimately have "[2 ..< Suc ?n] = [2 ..< ?L] @ ?L # [Suc ?L ..< Suc ?n]"
    by (simp only:)
  then have "rev [2 ..< Suc ?n] = rev [Suc ?L ..< Suc ?n] @ ?L # rev [2 ..< ?L]"
    by (simp del: upt_Suc)
  moreover from nB BL
  have "filter ?B (rev [Suc ?L ..< Suc ?n] @ ?L # rev [2 ..< ?L]) = ?L # filter ?B (rev [2 ..< ?L])"
    by (intro filter_first) blast+
  ultimately have f: "filter ?B (rev [2 ..< Suc ?n]) = ?L # filter ?B (rev [2 ..< ?L])"
    by (simp only:)
  have "\<not> ?n < 2" using h(1) Ln by linarith
  with f show ?thesis
    by (simp add: firstMatch_def ms_handle Let_def del: ms.simps upt_Suc)
qed

subsection \<open>The parts of a match of a social pattern\<close>

lemma ms_Seq_split:
  assumes "(m, c) \<in> set (ms ic (Seq a b) prev rest)"
  obtains m1 c1 m2 c2 r where "rest = m1 @ r" "(m1, c1) \<in> set (ms ic a prev rest)"
    "(m2, c2) \<in> set (ms ic b (lastChar prev m1) r)" "m = m1 @ m2"
    "c = (case c2 of None \<Rightarrow> c1 | Some _ \<Rightarrow> c2)"
proof -
  from assms obtain m1 c1 m2 c2 where
    a: "(m1, c1) \<in> set (ms ic a prev rest)" and
    b: "(m2, c2) \<in> set (ms ic b (lastChar prev m1) (drop (length m1) rest))" and
    m: "m = m1 @ m2" "c = (case c2 of None \<Rightarrow> c1 | Some _ \<Rightarrow> c2)"
    by (subst (asm) ms_Seq_iff) blast
  from ms_prefix[OF a] obtain r where r: "rest = m1 @ r" by (auto simp: prefix_def)
  with b have b': "(m2, c2) \<in> set (ms ic b (lastChar prev m1) r)" by simp
  from r a b' m show ?thesis by (rule that)
qed

lemma ms_opt_char:
  assumes "(m, c) \<in> set (ms True (Rep (Pos [Single x]) 0 (Some 1)) prev rest)"
    "\<And>d. sameChar True x d \<longleftrightarrow> d = x"
  shows "c = None \<and> (m = [] \<or> m = [x])"
proof -
  from assms(1) have c: "c = None" and l: "length m \<le> 1" and a: "list_all (inSet True (Pos [Single x])) m"
    by (simp_all add: ms_Rep_iff del: ms.simps)
  show ?thesis
  proof (cases m)
    case Nil
    with c show ?thesis by simp
  next
    case (Cons d ds)
    with l have "ds = []" by simp
    with Cons a assms(2) c show ?thesis by simp
  qed
qed

lemma ms_sep:
  assumes "(m, c) \<in> set (ms True sep prev rest)"
  shows "c = None \<and> (m = [] \<or> m = '':'' \<or> m = ''-'')"
proof -
  from assms have c: "c = None" and l: "length m \<le> 1"
    and a: "list_all (inSet True (Pos [Single (CHR '':''), Single (CHR ''-'')])) m"
    by (simp_all add: sep_def ms_Rep_iff del: ms.simps inSet.simps)
  show ?thesis
  proof (cases m)
    case Nil
    with c show ?thesis by simp
  next
    case (Cons d ds)
    with l have "ds = []" by simp
    with Cons a c show ?thesis by (simp add: sep_class del: inSet.simps)
  qed
qed

lemma ms_ws:
  assumes "(m, c) \<in> set (ms True ws prev rest)"
  shows "c = None \<and> list_all isSpace m"
  using assms by (simp add: ws_def ms_Rep_iff list_all_iff del: ms.simps)

lemma ms_handle_boundary:
  assumes "(m, c) \<in> set (ms True (Seq (Cap (Rep (Pos cls) 2 (Some mx))) WordB) prev rest)"
  obtains post where "rest = m @ post" "c = Some m" "2 \<le> length m" "length m \<le> mx"
    "list_all (inSet True (Pos cls)) m" "isWordChar (last m) \<noteq> isWordAt (nextChar post)"
proof -
  from assms obtain m1 c1 m2 c2 r where
    r: "rest = m1 @ r" and a: "(m1, c1) \<in> set (ms True (Cap (Rep (Pos cls) 2 (Some mx))) prev rest)"
    and b: "(m2, c2) \<in> set (ms True WordB (lastChar prev m1) r)" and m: "m = m1 @ m2"
    and c: "c = (case c2 of None \<Rightarrow> c1 | Some _ \<Rightarrow> c2)"
    by (rule ms_Seq_split)
  from b have b': "m2 = []" "c2 = None" "isWordAt (lastChar prev m1) \<noteq> isWordAt (nextChar r)"
    by (simp_all add: ms_WordB_iff del: ms.simps)
  from a have a': "c1 = Some m1" "2 \<le> length m1" "length m1 \<le> mx" "list_all (inSet True (Pos cls)) m1"
    by (auto simp: ms_Cap_iff ms_Rep_iff simp del: ms.simps inSet.simps)
  from a'(2) have "m1 \<noteq> []" by auto
  with b'(3) have "isWordChar (last m1) \<noteq> isWordAt (nextChar r)"
    by (simp add: lastChar_def isWordAt_def)
  with r m c a' b' show ?thesis by (intro that[of r]) simp_all
qed

lemma socialRe_sound:
  assumes p: "(name, kws, withAt, cls, mx) \<in> set platforms"
    and m: "(m, c) \<in> set (ms True (socialRe kws withAt cls mx) prev rest)"
  shows "\<exists>kw kw' sp1 sp sp2 a h post.
           rest = kw' @ sp1 @ sp @ sp2 @ a @ h @ post \<and> m = kw' @ sp1 @ sp @ sp2 @ a @ h
           \<and> c = Some h \<and> kw \<in> set kws \<and> sameText kw kw' \<and> \<not> isWordAt prev
           \<and> list_all isSpace sp1 \<and> (sp = [] \<or> sp = '':'' \<or> sp = ''-'') \<and> list_all isSpace sp2
           \<and> (a = [] \<or> (withAt \<and> a = ''@''))
           \<and> 2 \<le> length h \<and> length h \<le> mx \<and> list_all (inSet True (Pos cls)) h
           \<and> isWordChar (last h) \<noteq> isWordAt (nextChar post)"
proof -
  let ?HB = "Seq (Cap (Rep (Pos cls) 2 (Some mx))) WordB"
  let ?T = "cat ((if withAt then [at] else []) @ [Cap (Rep (Pos cls) 2 (Some mx)), WordB])"
  have c1: "cat ([ws, sep, ws] @ (if withAt then [at] else []) @ [Cap (Rep (Pos cls) 2 (Some mx)), WordB])
        = Seq ws (Seq sep (Seq ws ?T))"
    by simp
  from m have m': "(m, c) \<in> set (ms True (Seq WordB (Seq (alts (map Lit kws)) (Seq ws (Seq sep (Seq ws ?T))))) prev rest)"
    unfolding socialRe_Seq c1 .
  from m' obtain m0 c0 mA cA r0 where
    s0: "rest = m0 @ r0" "(m0, c0) \<in> set (ms True WordB prev rest)"
        "(mA, cA) \<in> set (ms True (Seq (alts (map Lit kws)) (Seq ws (Seq sep (Seq ws ?T)))) (lastChar prev m0) r0)"
        "m = m0 @ mA" "c = (case cA of None \<Rightarrow> c0 | Some _ \<Rightarrow> cA)"
    by (rule ms_Seq_split)
  from s0(2) have w0: "m0 = []" "c0 = None" "isWordAt prev \<noteq> isWordAt (nextChar rest)"
    by (simp_all add: ms_WordB_iff del: ms.simps)
  from s0(1,4) w0(1) have r0: "r0 = rest" "mA = m" by simp_all
  from s0(5) w0(2) have cA: "cA = c" by (cases cA) simp_all
  from s0(3) w0(1) r0 have
    "(m, cA) \<in> set (ms True (Seq (alts (map Lit kws)) (Seq ws (Seq sep (Seq ws ?T)))) prev rest)"
    by (simp add: lastChar_def del: ms.simps cat.simps)
  then obtain kw' ck mB cB r1 where
    s1: "rest = kw' @ r1" "(kw', ck) \<in> set (ms True (alts (map Lit kws)) prev rest)"
        "(mB, cB) \<in> set (ms True (Seq ws (Seq sep (Seq ws ?T))) (lastChar prev kw') r1)"
        "m = kw' @ mB" "cA = (case cB of None \<Rightarrow> ck | Some _ \<Rightarrow> cB)"
    by (rule ms_Seq_split)
  from alts_sublist[OF s1(2)] obtain kw where kw: "kw \<in> set kws" "sameText kw kw'" by blast
  from keyword_first[OF p kw(1)] have k1: "kw \<noteq> []" "97 \<le> code (hd kw)" "code (hd kw) \<le> 122"
    by simp_all
  from kw(2) k1(1) obtain x xs y ys where kk: "kw = x # xs" "kw' = y # ys" "sameChar True x y"
    by (cases kw; cases kw') (auto simp: sameText_def)
  with k1 have "isWordChar y" by (auto intro: lower_first_word)
  with w0(3) s1(1) kk have before: "\<not> isWordAt prev" by (simp add: nextChar_def isWordAt_def)
  from s1(3) obtain sp1 c2 mC cC r2 where
    s2: "r1 = sp1 @ r2" "(sp1, c2) \<in> set (ms True ws (lastChar prev kw') r1)"
        "(mC, cC) \<in> set (ms True (Seq sep (Seq ws ?T)) (lastChar (lastChar prev kw') sp1) r2)"
        "mB = sp1 @ mC" "cB = (case cC of None \<Rightarrow> c2 | Some _ \<Rightarrow> cC)"
    by (rule ms_Seq_split)
  from s2(3) obtain sp c3 mD cD r3 where
    s3: "r2 = sp @ r3" "(sp, c3) \<in> set (ms True sep (lastChar (lastChar prev kw') sp1) r2)"
        "(mD, cD) \<in> set (ms True (Seq ws ?T) (lastChar (lastChar (lastChar prev kw') sp1) sp) r3)"
        "mC = sp @ mD" "cC = (case cD of None \<Rightarrow> c3 | Some _ \<Rightarrow> cD)"
    by (rule ms_Seq_split)
  from s3(3) obtain sp2 c4 mE cE r4 where
    s4: "r3 = sp2 @ r4" "(sp2, c4) \<in> set (ms True ws (lastChar (lastChar (lastChar prev kw') sp1) sp) r3)"
        "(mE, cE) \<in> set (ms True ?T (lastChar (lastChar (lastChar (lastChar prev kw') sp1) sp) sp2) r4)"
        "mD = sp2 @ mE" "cD = (case cE of None \<Rightarrow> c4 | Some _ \<Rightarrow> cE)"
    by (rule ms_Seq_split)
  have "\<exists>a h post. r4 = a @ h @ post \<and> mE = a @ h \<and> cE = Some h \<and> (a = [] \<or> (withAt \<and> a = ''@''))
          \<and> 2 \<le> length h \<and> length h \<le> mx \<and> list_all (inSet True (Pos cls)) h
          \<and> isWordChar (last h) \<noteq> isWordAt (nextChar post)"
  proof (cases withAt)
    case True
    with s4(3) have "(mE, cE) \<in> set (ms True (Seq at ?HB)
        (lastChar (lastChar (lastChar (lastChar prev kw') sp1) sp) sp2) r4)" by (simp del: ms.simps)
    then obtain a c5 h cH r5 where
      s5: "r4 = a @ r5" "(a, c5) \<in> set (ms True at (lastChar (lastChar (lastChar (lastChar prev kw') sp1) sp) sp2) r4)"
          "(h, cH) \<in> set (ms True ?HB (lastChar (lastChar (lastChar (lastChar (lastChar prev kw') sp1) sp) sp2) a) r5)"
          "mE = a @ h" "cE = (case cH of None \<Rightarrow> c5 | Some _ \<Rightarrow> cH)"
      by (rule ms_Seq_split)
    from s5(2) have a: "a = [] \<or> a = ''@''"
      unfolding at_def using ms_opt_char[of a c5 "CHR ''@''"] sameChar_at by blast
    from s5(3) obtain post where "r5 = h @ post" "cH = Some h" "2 \<le> length h" "length h \<le> mx"
      "list_all (inSet True (Pos cls)) h" "isWordChar (last h) \<noteq> isWordAt (nextChar post)"
      by (rule ms_handle_boundary)
    with s5(1,4,5) a True show ?thesis by (intro exI[of _ a] exI[of _ h] exI[of _ post]) simp
  next
    case False
    with s4(3) have "(mE, cE) \<in> set (ms True ?HB
        (lastChar (lastChar (lastChar (lastChar prev kw') sp1) sp) sp2) r4)" by (simp del: ms.simps)
    then obtain post where "r4 = mE @ post" "cE = Some mE" "2 \<le> length mE" "length mE \<le> mx"
      "list_all (inSet True (Pos cls)) mE" "isWordChar (last mE) \<noteq> isWordAt (nextChar post)"
      by (rule ms_handle_boundary)
    then show ?thesis by (intro exI[of _ "[]"] exI[of _ mE] exI[of _ post]) simp
  qed
  then obtain a h post where t: "r4 = a @ h @ post" "mE = a @ h" "cE = Some h"
      "a = [] \<or> (withAt \<and> a = ''@'')" "2 \<le> length h" "length h \<le> mx"
      "list_all (inSet True (Pos cls)) h" "isWordChar (last h) \<noteq> isWordAt (nextChar post)"
    by blast
  from s2(2) have sp1: "list_all isSpace sp1" by (auto dest: ms_ws)
  from s4(2) have sp2: "list_all isSpace sp2" by (auto dest: ms_ws)
  from s3(2) have sp: "sp = [] \<or> sp = '':'' \<or> sp = ''-''" by (auto dest: ms_sep)
  from t(3) s4(5) s3(5) s2(5) s1(5) cA have c: "c = Some h" by simp
  from s1(1) s2(1) s3(1) s4(1) t(1) have rest: "rest = kw' @ sp1 @ sp @ sp2 @ a @ h @ post" by simp
  from s1(4) s2(4) s3(4) s4(4) t(2) have mm: "m = kw' @ sp1 @ sp @ sp2 @ a @ h" by simp
  from rest mm c kw before sp1 sp sp2 t(4-8)
  have "rest = kw' @ sp1 @ sp @ sp2 @ a @ h @ post \<and> m = kw' @ sp1 @ sp @ sp2 @ a @ h
           \<and> c = Some h \<and> kw \<in> set kws \<and> sameText kw kw' \<and> \<not> isWordAt prev
           \<and> list_all isSpace sp1 \<and> (sp = [] \<or> sp = '':'' \<or> sp = ''-'') \<and> list_all isSpace sp2
           \<and> (a = [] \<or> (withAt \<and> a = ''@''))
           \<and> 2 \<le> length h \<and> length h \<le> mx \<and> list_all (inSet True (Pos cls)) h
           \<and> isWordChar (last h) \<noteq> isWordAt (nextChar post)"
    by (simp only: simp_thms)
  then show ?thesis by (intro exI)
qed

subsection \<open>Mentions of a label\<close>

text \<open>
  \<open>aliasAtWordStart kws prev s\<close>: one of the aliases \<open>kws\<close> stands in \<open>s\<close> (in any letter
  case) right after the start of the text or a character that is not a word character;
  \<open>prev\<close> is the character before \<open>s\<close>.

  \<open>mention\<close>: the text \<open>pre @ kw' @ sp1 @ sp @ sp2 @ a @ h @ post\<close> mentions the label.
  The alias \<open>kw'\<close> stands at the start of a word; white space \<open>sp1\<close>, a separator
  \<open>sp\<close> (a colon, a hyphen or nothing), white space \<open>sp2\<close> and \<open>a\<close> (an at sign, where
  the label allows one, or nothing) lead to the handle \<open>h\<close>, of two to \<open>mx\<close> characters
  of the class, which ends at a word boundary.

  \<open>plainMention\<close>: the mention is the first of its label and reads in one way only. No
  alias of the label stands at the start of a word in \<open>pre\<close>; no other alias of the
  label matches where \<open>kw'\<close> stands; a handle that follows the alias and its white
  space directly does not begin with a hyphen, which would be read as the separator; the
  handle ends in a word character, and no word character follows among the characters of
  the class that come after it.
\<close>

fun aliasAtWordStart :: "string list \<Rightarrow> char option \<Rightarrow> string \<Rightarrow> bool" where
  "aliasAtWordStart kws prev [] = False"
| "aliasAtWordStart kws prev (c # cs) =
     ((\<not> isWordAt prev \<and> list_ex (\<lambda>kw. litPrefix True kw (c # cs) \<noteq> None) kws)
      \<or> aliasAtWordStart kws (Some c) cs)"

definition mention ::
  "string list \<Rightarrow> bool \<Rightarrow> citem list \<Rightarrow> nat \<Rightarrow>
   string \<Rightarrow> string \<Rightarrow> string \<Rightarrow> string \<Rightarrow> string \<Rightarrow> string \<Rightarrow> string \<Rightarrow> string \<Rightarrow> bool" where
  "mention kws withAt cls mx pre kw' sp1 sp sp2 a h post =
     (\<not> isWordAt (lastChar None pre) \<and> list_ex (\<lambda>kw. sameText kw kw') kws
      \<and> list_all isSpace sp1 \<and> (sp = [] \<or> sp = '':'' \<or> sp = ''-'') \<and> list_all isSpace sp2
      \<and> (a = [] \<or> (withAt \<and> a = ''@''))
      \<and> 2 \<le> length h \<and> length h \<le> mx \<and> list_all (inSet True (Pos cls)) h
      \<and> isWordChar (last h) \<noteq> isWordAt (nextChar post))"

definition plainMention ::
  "string list \<Rightarrow> citem list \<Rightarrow>
   string \<Rightarrow> string \<Rightarrow> string \<Rightarrow> string \<Rightarrow> string \<Rightarrow> string \<Rightarrow> string \<Rightarrow> string \<Rightarrow> bool" where
  "plainMention kws cls pre kw' sp1 sp sp2 a h post =
     (\<not> aliasAtWordStart kws None pre
      \<and> list_all (\<lambda>kw. litPrefix True kw (kw' @ sp1 @ sp @ sp2 @ a @ h @ post) \<noteq> None
                      \<longrightarrow> sameText kw kw') kws
      \<and> (sp = [] \<and> a = [] \<longrightarrow> hd h \<noteq> CHR ''-'')
      \<and> isWordChar (last h)
      \<and> list_all (\<lambda>c. \<not> isWordChar c) (takeWhile (inSet True (Pos cls)) post))"

lemma alias_at:
  "k \<le> length s \<Longrightarrow> \<not> isWordAt (lastChar prev (take k s)) \<Longrightarrow> kw \<in> set kws \<Longrightarrow>
   litPrefix True kw (drop k s) = Some m \<Longrightarrow> kw \<noteq> [] \<Longrightarrow> aliasAtWordStart kws prev s"
proof (induction s arbitrary: prev k)
  case Nil
  then show ?case by (cases kw) simp_all
next
  case (Cons c cs)
  show ?case
  proof (cases k)
    case 0
    with Cons.prems show ?thesis by (auto simp: lastChar_def list_ex_iff)
  next
    case (Suc k')
    with Cons.prems have "k' \<le> length cs" "\<not> isWordAt (lastChar (Some c) (take k' cs))"
      "litPrefix True kw (drop k' cs) = Some m"
      by (simp_all add: lastChar_Cons)
    from Cons.IH[OF this(1,2) Cons.prems(3) this(3) Cons.prems(5)] show ?thesis by simp
  qed
qed

lemma aliasAtWordStart_iff:
  assumes "\<forall>kw \<in> set kws. kw \<noteq> []"
  shows "aliasAtWordStart kws prev s \<longleftrightarrow>
           (\<exists>p m q kw. s = p @ m @ q \<and> kw \<in> set kws \<and> sameText kw m \<and> \<not> isWordAt (lastChar prev p))"
proof
  assume "aliasAtWordStart kws prev s"
  then show "\<exists>p m q kw. s = p @ m @ q \<and> kw \<in> set kws \<and> sameText kw m \<and> \<not> isWordAt (lastChar prev p)"
  proof (induction s arbitrary: prev)
    case Nil
    then show ?case by simp
  next
    case (Cons c cs)
    show ?case
    proof (cases "\<not> isWordAt prev \<and> list_ex (\<lambda>kw. litPrefix True kw (c # cs) \<noteq> None) kws")
      case True
      then obtain kw m where kw: "kw \<in> set kws" "litPrefix True kw (c # cs) = Some m"
        by (auto simp: list_ex_iff)
      then have "prefix m (c # cs)" "sameText kw m" by (simp_all add: litPrefix_iff sameText_def)
      then obtain q where "c # cs = [] @ m @ q" by (auto simp: prefix_def)
      moreover from True have "\<not> isWordAt (lastChar prev [])" by (simp add: lastChar_def)
      ultimately show ?thesis using kw(1) \<open>sameText kw m\<close> by blast
    next
      case False
      with Cons.prems have "aliasAtWordStart kws (Some c) cs" by auto
      from Cons.IH[OF this] obtain p m q kw where
        "cs = p @ m @ q" "kw \<in> set kws" "sameText kw m" "\<not> isWordAt (lastChar (Some c) p)"
        by blast
      then have "c # cs = (c # p) @ m @ q \<and> kw \<in> set kws \<and> sameText kw m
                 \<and> \<not> isWordAt (lastChar prev (c # p))"
        by (simp add: lastChar_Cons)
      then show ?thesis by blast
    qed
  qed
next
  assume "\<exists>p m q kw. s = p @ m @ q \<and> kw \<in> set kws \<and> sameText kw m \<and> \<not> isWordAt (lastChar prev p)"
  then obtain p m q kw where
    s: "s = p @ m @ q" "kw \<in> set kws" "sameText kw m" "\<not> isWordAt (lastChar prev p)" by blast
  from s(3) have "litPrefix True kw (m @ q) = Some m" by (simp add: litPrefix_iff sameText_def)
  with s assms show "aliasAtWordStart kws prev s"
    by (intro alias_at[where k = "length p" and kw = kw and m = m]) simp_all
qed

lemma keywords_lower:
  "list_all (\<lambda>(name, kws, withAt, cls, mx).
      list_all (\<lambda>kw. kw \<noteq> [] \<and> list_all (\<lambda>c. 97 \<le> code c \<and> code c \<le> 122) kw) kws) platforms"
  by (simp add: platforms_def code_def)

lemma keyword_lower:
  assumes "(name, kws, withAt, cls, mx) \<in> set platforms" "kw \<in> set kws"
  shows "kw \<noteq> [] \<and> list_all (\<lambda>c. 97 \<le> code c \<and> code c \<le> 122) kw"
proof -
  from keywords_lower assms(1)
  have "list_all (\<lambda>kw. kw \<noteq> [] \<and> list_all (\<lambda>c. 97 \<le> code c \<and> code c \<le> 122) kw) kws"
    unfolding list_all_iff by blast
  with assms(2) show ?thesis unfolding list_all_iff by blast
qed

lemma sameText_word:
  assumes "sameText kw m" "list_all (\<lambda>c. 97 \<le> code c \<and> code c \<le> 122) kw"
  shows "list_all isWordChar m"
  using assms unfolding sameText_def
  by (induction kw m rule: list_all2_induct) (auto intro: lower_first_word)

lemma litPrefix_within:
  assumes l: "litPrefix True kw (p @ rest) = Some m" and p: "p \<noteq> []" "\<not> isWordChar (last p)"
    and low: "list_all (\<lambda>c. 97 \<le> code c \<and> code c \<le> 122) kw"
  shows "litPrefix True kw p = Some m"
proof -
  from l have pm: "prefix m (p @ rest)" and st: "sameText kw m"
    by (simp_all add: litPrefix_iff sameText_def)
  from sameText_word[OF st low] have w: "list_all isWordChar m" .
  from pm have "prefix m p \<or> (\<exists>us. m = p @ us \<and> prefix us rest)" by (simp add: prefix_append)
  then have "prefix m p"
  proof
    assume "\<exists>us. m = p @ us \<and> prefix us rest"
    then obtain us where "m = p @ us" by blast
    with p(1) have "last p \<in> set m" by simp
    with w p(2) show ?thesis by (auto simp: list_all_iff)
  qed
  with st show ?thesis by (simp add: litPrefix_iff sameText_def)
qed

lemma no_earlier_alias:
  assumes na: "\<not> aliasAtWordStart kws prev pre"
    and b: "\<not> isWordAt (lastChar prev pre)"
    and low: "kw \<noteq> []" "list_all (\<lambda>c. 97 \<le> code c \<and> code c \<le> 122) kw"
    and j: "j < length pre" and kw: "kw \<in> set kws"
    and w: "\<not> isWordAt (lastChar prev (take j (pre @ rest)))"
  shows "litPrefix True kw (drop j (pre @ rest)) = None"
proof (cases "litPrefix True kw (drop j (pre @ rest))")
  case None
  then show ?thesis .
next
  case (Some m)
  with j have m: "litPrefix True kw (drop j pre @ rest) = Some m" by simp
  from j have ne: "drop j pre \<noteq> []" by simp
  from j have "pre \<noteq> []" by auto
  with b have "\<not> isWordChar (last pre)" by (simp add: lastChar_def isWordAt_def)
  with j have nl: "\<not> isWordChar (last (drop j pre))" by simp
  from m ne nl low(2) have l: "litPrefix True kw (drop j pre) = Some m"
    by (rule litPrefix_within)
  from w j have w': "\<not> isWordAt (lastChar prev (take j pre))" by simp
  from j have jl: "j \<le> length pre" by simp
  from jl w' kw l low(1) have "aliasAtWordStart kws prev pre" by (rule alias_at)
  with na show ?thesis by simp
qed

lemma socialRe_first:
  assumes p: "(name, kws, withAt, cls, mx) \<in> set platforms"
    and kw: "kw \<in> set kws" "sameText kw kw'"
    and only: "\<forall>kw2 \<in> set kws. litPrefix True kw2 (kw' @ sp1 @ sp @ sp2 @ a @ h @ post) \<noteq> None
                 \<longrightarrow> sameText kw2 kw'"
    and before: "\<not> isWordAt prev"
    and sp1: "list_all isSpace sp1" and sp: "sp = [] \<or> sp = '':'' \<or> sp = ''-''"
    and sp2: "list_all isSpace sp2" and a: "a = [] \<or> (withAt \<and> a = ''@'')"
    and canon: "sp = [] \<longrightarrow> sp2 = []" "sp = [] \<and> a = [] \<longrightarrow> hd h \<noteq> CHR ''-''"
    and h: "2 \<le> length h" "length h \<le> mx" "list_all (inSet True (Pos cls)) h"
    and lst: "isWordChar (last h)"
    and ext: "list_all (\<lambda>c. \<not> isWordChar c) (takeWhile (inSet True (Pos cls)) post)"
  shows "firstMatch (socialRe kws withAt cls mx) prev (kw' @ sp1 @ sp @ sp2 @ a @ h @ post)
           = Some (kw' @ sp1 @ sp @ sp2 @ a @ h, Some h)"
proof -
  let ?HB = "Seq (Cap (Rep (Pos cls) 2 (Some mx))) WordB"
  let ?T = "cat ((if withAt then [at] else []) @ [Cap (Rep (Pos cls) 2 (Some mx)), WordB])"
  from h(1) obtain c0 h' where hc: "h = c0 # h'" by (cases h) auto
  with h(3) have c0: "inSet True (Pos cls) c0" by simp
  from class_plain[OF p c0] have plain: "\<not> isSpace c0" "c0 \<noteq> CHR '':''" "c0 \<noteq> CHR ''@''"
    by simp_all
  have f_hb: "firstMatch ?HB q (h @ post) = Some (h, Some h)" for q
    using class_word[OF p] h lst ext by (rule firstMatch_handle)
  have f_t: "firstMatch ?T q (a @ h @ post) = Some (a @ h, Some h)" for q
  proof (cases withAt)
    case True
    have "firstMatch at q (a @ (h @ post)) = Some (a, None)"
      unfolding at_def using a plain hc
      by (intro firstMatch_opt) (auto simp only: at_class list.sel append_Cons)
    from firstMatch_Seq[OF this f_hb] True show ?thesis by simp
  next
    case False
    with a have "a = []" by simp
    with False f_hb show ?thesis by simp
  qed
  have hd_a: "hd (a @ h @ post) = CHR ''@'' \<or> (a = [] \<and> hd (a @ h @ post) = c0)"
    using a hc by auto
  then have ns_a: "\<not> inSet True (Pos [Space]) (hd (a @ h @ post))"
    using plain not_space_punct by (auto simp only: space_class)
  from sp1 have sp1c: "list_all (inSet True (Pos [Space])) sp1" by (simp add: list_all_iff)
  from sp2 have sp2c: "list_all (inSet True (Pos [Space])) sp2" by (simp add: list_all_iff)
  have f_ws2: "firstMatch ws q (sp2 @ (a @ h @ post)) = Some (sp2, None)" for q
    unfolding ws_def using sp2c disjI2[OF ns_a] by (rule firstMatch_star)
  from firstMatch_Seq[OF f_ws2 f_t]
  have f3: "firstMatch (Seq ws ?T) q (sp2 @ a @ h @ post) = Some (sp2 @ a @ h, Some h)" for q
    by simp
  have f_sep: "firstMatch sep q (sp @ (sp2 @ a @ h @ post)) = Some (sp, None)" for q
    unfolding sep_def
  proof (intro firstMatch_opt impI)
    from sp show "sp = [] \<or> (\<exists>c. sp = [c] \<and> inSet True (Pos [Single (CHR '':''), Single (CHR ''-'')]) c)"
      by (auto simp only: sep_class)
  next
    assume e: "sp = []"
    with canon(1) have s2: "sp2 = []" by simp
    from hd_a e canon(2) plain hc
    have "\<not> inSet True (Pos [Single (CHR '':''), Single (CHR ''-'')]) (hd (a @ h @ post))"
      by (auto simp only: sep_class list.sel append_Nil append_Cons)
    with s2 show "sp2 @ a @ h @ post = []
        \<or> \<not> inSet True (Pos [Single (CHR '':''), Single (CHR ''-'')]) (hd (sp2 @ a @ h @ post))"
      by (simp only: append_Nil) simp
  qed
  from firstMatch_Seq[OF f_sep f3]
  have f4: "firstMatch (Seq sep (Seq ws ?T)) q (sp @ sp2 @ a @ h @ post) = Some (sp @ sp2 @ a @ h, Some h)" for q
    by simp
  have ns_sp: "\<not> inSet True (Pos [Space]) (hd (sp @ sp2 @ a @ h @ post))"
  proof (cases "sp = []")
    case True
    with canon(1) ns_a show ?thesis by simp
  next
    case False
    with sp not_space_punct show ?thesis by (auto simp only: space_class list.sel append_Cons)
  qed
  have f_ws1: "firstMatch ws q (sp1 @ (sp @ sp2 @ a @ h @ post)) = Some (sp1, None)" for q
    unfolding ws_def using sp1c disjI2[OF ns_sp] by (rule firstMatch_star)
  from firstMatch_Seq[OF f_ws1 f4]
  have f5: "firstMatch (Seq ws (Seq sep (Seq ws ?T))) q (sp1 @ sp @ sp2 @ a @ h @ post)
              = Some (sp1 @ sp @ sp2 @ a @ h, Some h)" for q
    by simp
  let ?rest = "sp1 @ sp @ sp2 @ a @ h @ post"
  from kw only have f_alts: "firstMatch (alts (map Lit kws)) q (kw' @ ?rest) = Some (kw', None)" for q
    by (rule firstMatch_alts_same)
  from firstMatch_Seq[OF f_alts f5]
  have f6: "firstMatch (Seq (alts (map Lit kws)) (Seq ws (Seq sep (Seq ws ?T)))) q (kw' @ ?rest)
              = Some (kw' @ sp1 @ sp @ sp2 @ a @ h, Some h)" for q
    by simp
  from keyword_first[OF p kw(1)] have k1: "kw \<noteq> []" "97 \<le> code (hd kw)" "code (hd kw) \<le> 122"
    by simp_all
  from kw(2) k1(1) obtain c cs x xs where kk: "kw = c # cs" "kw' = x # xs" "sameChar True c x"
    by (cases kw; cases kw') (auto simp: sameText_def)
  with k1 have "isWordChar x" by (auto intro: lower_first_word)
  with kk before have "isWordAt prev \<noteq> isWordAt (nextChar (kw' @ ?rest))"
    by (simp add: isWordAt_def nextChar_def)
  then have f0: "firstMatch WordB prev ([] @ kw' @ ?rest) = Some ([], None)"
    by (simp add: firstMatch_WordB)
  have c1: "cat ([ws, sep, ws] @ (if withAt then [at] else []) @ [Cap (Rep (Pos cls) 2 (Some mx)), WordB])
        = Seq ws (Seq sep (Seq ws ?T))"
    by simp
  from firstMatch_Seq[OF f0 f6]
  show ?thesis unfolding socialRe_Seq c1 by simp
qed


lemma match_re_first:
  assumes f: "firstMatch r (lastChar None pre) rest = Some x"
    and e: "\<forall>j<length pre. ms True r (lastChar None (take j (pre @ rest))) (drop j (pre @ rest)) = []"
  shows "match_re True r (pre @ rest) = Some x"
proof -
  from f obtain others where "ms True r (lastChar None pre) rest = x # others"
    by (auto simp: firstMatch_def split: list.splits)
  then have "ms True r (lastChar None (take (length pre) (pre @ rest))) (drop (length pre) (pre @ rest)) = x # others"
    by simp
  with e have "re_search True r None (pre @ rest) = Some (length pre, x)"
    by (intro re_search_found[where rs = others]) simp_all
  then show ?thesis by (simp add: match_re_def)
qed

lemma social_first_mention:
  assumes p: "(name, kws, withAt, cls, mx) \<in> set platforms"
    and m: "mention kws withAt cls mx pre kw' sp1 sp sp2 a h post"
    and pl: "plainMention kws cls pre kw' sp1 sp sp2 a h post"
  shows "match_re True (socialRe kws withAt cls mx) (pre @ kw' @ sp1 @ sp @ sp2 @ a @ h @ post)
           = Some (kw' @ sp1 @ sp @ sp2 @ a @ h, Some h)"
proof -
  let ?re = "socialRe kws withAt cls mx"
  let ?rest = "kw' @ sp1 @ sp @ sp2 @ a @ h @ post"
  from m obtain kw where kw: "kw \<in> set kws" "sameText kw kw'"
    by (auto simp: mention_def list_ex_iff)
  from m have before: "\<not> isWordAt (lastChar None pre)" by (simp add: mention_def)
  from pl have only: "\<forall>kw2 \<in> set kws. litPrefix True kw2 ?rest \<noteq> None \<longrightarrow> sameText kw2 kw'"
    by (simp add: plainMention_def list_all_iff)
  from m have sps: "list_all isSpace sp1" "list_all isSpace sp2" by (simp_all add: mention_def)
  have f: "firstMatch ?re (lastChar None pre) ?rest = Some (kw' @ sp1 @ sp @ sp2 @ a @ h, Some h)"
  proof (cases "sp = []")
    case False
    with p kw only before m pl show ?thesis
      by (intro socialRe_first[where kw = kw and name = name])
         (simp_all add: mention_def plainMention_def)
  next
    case True
    from sps have sp12: "list_all isSpace (sp1 @ sp2)" by simp
    from only True
    have only': "\<forall>kw2 \<in> set kws. litPrefix True kw2 (kw' @ (sp1 @ sp2) @ sp @ [] @ a @ h @ post) \<noteq> None
                   \<longrightarrow> sameText kw2 kw'"
      by simp
    have "firstMatch ?re (lastChar None pre) (kw' @ (sp1 @ sp2) @ sp @ [] @ a @ h @ post)
            = Some (kw' @ (sp1 @ sp2) @ sp @ [] @ a @ h, Some h)"
      using p kw only' before sp12 m pl True
      by (intro socialRe_first[where kw = kw and name = name])
         (simp_all add: mention_def plainMention_def)
    with True show ?thesis by simp
  qed
  have e: "ms True ?re (lastChar None (take j (pre @ ?rest))) (drop j (pre @ ?rest)) = []"
    if j: "j < length pre" for j
  proof (cases "ms True ?re (lastChar None (take j (pre @ ?rest))) (drop j (pre @ ?rest))")
    case Nil
    then show ?thesis .
  next
    case (Cons x xs)
    obtain mj cj where "x = (mj, cj)" by (cases x) auto
    with Cons have "(mj, cj) \<in> set (ms True ?re (lastChar None (take j (pre @ ?rest))) (drop j (pre @ ?rest)))"
      by simp
    from socialRe_sound[OF p this] obtain k k' q where
      k: "drop j (pre @ ?rest) = k' @ q" "k \<in> set kws" "sameText k k'"
         "\<not> isWordAt (lastChar None (take j (pre @ ?rest)))"
      by blast
    from k(3) have l: "litPrefix True k (drop j (pre @ ?rest)) = Some k'"
      unfolding k(1) by (simp add: litPrefix_iff sameText_def)
    from pl have na: "\<not> aliasAtWordStart kws None pre" by (simp add: plainMention_def)
    from keyword_lower[OF p k(2)] have low: "k \<noteq> []" "list_all (\<lambda>c. 97 \<le> code c \<and> code c \<le> 122) k"
      by simp_all
    from no_earlier_alias[OF na before low j k(2) k(4)] l show ?thesis by simp
  qed
  from f e show ?thesis by (intro match_re_first) blast+
qed

section \<open>Facts about the endpoint\<close>

lemma fromUsername_msg:
  "fromUsername msg e n = (Inr i, cs) \<Longrightarrow> fromUsername msg' e n = (Inr i, cs)"
  by (auto simp: fromUsername_def split: option.splits if_splits prod.splits sum.splits)

lemma resolveUserId_msg:
  "resolveUserId msg e u n = (Inr i, cs) \<Longrightarrow> resolveUserId msg' e u n = (Inr i, cs)"
  by (auto simp: resolveUserId_def split: option.splits if_splits dest: fromUsername_msg)

lemma sendDiscordEmbed_result:
  "fst (sendDiscordEmbed e input) =
     (if WEBHOOK_URL e \<noteq> [] \<and> None \<in> set (embed_connections input)
      then Inl nullTypeError else Inr ())"
  by (simp add: sendDiscordEmbed_def split: sum.splits)

lemma checkHandler_embed:
  assumes r: "resolved e req uid" and u: "users_get e (toStr uid) = Inr info"
  shows "fst (checkHandler msg e req) =
           (case fst (sendDiscordEmbed e
                   \<lparr>embed_username = firstTruthy (case info of Some p \<Rightarrow> info_name p | None \<Rightarrow> None)
                                       (snd (applyRolimons req)) ''Unknown'',
                    embed_userId = uid, embed_bio = bioOf info,
                    embed_parsedBio = extractConnectionsFromBio (bioOf info),
                    embed_connections = fst (getConnections e (toStr uid))\<rparr>) of
              Inl err \<Rightarrow> Json 500 (ErrorBody (message err))
            | Inr _ \<Rightarrow>
                Json 200 (ResultBody \<lparr>res_userId = uid,
                  res_username = firstTruthy (case info of Some p \<Rightarrow> info_name p | None \<Rightarrow> None)
                                   (snd (applyRolimons req)) ''Unknown'',
                  res_bio = bioOf info,
                  res_parsed = extractConnectionsFromBio (bioOf info),
                  res_connections = fst (getConnections e (toStr uid))\<rparr>))"
proof -
  from r obtain msg0 cs0 where
    "resolveUserId msg0 e (fst (applyRolimons req)) (snd (applyRolimons req)) = (Inr uid, cs0)"
    by (auto simp: resolved_def)
  then have res: "resolveUserId msg e (fst (applyRolimons req)) (snd (applyRolimons req)) = (Inr uid, cs0)"
    by (rule resolveUserId_msg)
  from res u show ?thesis
    by (simp add: checkHandler_def getUserInfo_def bioOf_def Let_def case_prod_unfold
          split: sum.splits)
qed

lemma checkHandler_resolved:
  assumes r: "resolved e req uid" and u: "users_get e (toStr uid) = Inr info"
    and n: "WEBHOOK_URL e = [] \<or> None \<notin> set (fst (getConnections e (toStr uid)))"
  shows "fst (checkHandler msg e req) =
           Json 200 (ResultBody \<lparr>res_userId = uid,
              res_username = firstTruthy (case info of Some p \<Rightarrow> info_name p | None \<Rightarrow> None)
                               (snd (applyRolimons req)) ''Unknown'',
              res_bio = bioOf info,
              res_parsed = extractConnectionsFromBio (bioOf info),
              res_connections = fst (getConnections e (toStr uid))\<rparr>)"
  using n by (auto simp: checkHandler_embed[OF r u] sendDiscordEmbed_result)

lemma checkHandler_null:
  assumes r: "resolved e req uid" and u: "users_get e (toStr uid) = Inr info"
    and w: "WEBHOOK_URL e \<noteq> []" and n: "None \<in> set (fst (getConnections e (toStr uid)))"
  shows "fst (checkHandler msg e req) = Json 500 (ErrorBody (message nullTypeError))"
  using w n by (simp add: checkHandler_embed[OF r u] sendDiscordEmbed_result)


text \<open>Two requests and two environments used as examples.\<close>

definition denied :: env where
  \<comment> \<open>an environment whose private connections call is refused with status 401 and whose
      webhook times out\<close>
  "denied = \<lparr>WEBHOOK_URL = ''https://discord.test/hook'', ROBLOX_COOKIE = ''secret'',
     usernames_post = (\<lambda>n. Inr (Some (IdNum 156))),
     users_get = (\<lambda>i. Inr (Some \<lparr>info_name = Some ''builderman'', info_description = Some ''ig: abc''\<rparr>)),
     social_links_get = (\<lambda>i. Inl \<lparr>message = ''Request failed with status code 401'', status = Some 401\<rparr>),
     webhook_post = (\<lambda>x. Inl \<lparr>message = ''timeout of 15000ms exceeded'', status = None\<rparr>)\<rparr>"

definition nullLink :: env where
  \<comment> \<open>an environment with a webhook, whose social links call answers the array \<open>[null]\<close>\<close>
  "nullLink = \<lparr>WEBHOOK_URL = ''https://discord.test/hook'', ROBLOX_COOKIE = ''secret'',
     usernames_post = (\<lambda>n. Inr (Some (IdNum 156))),
     users_get = (\<lambda>i. Inr (Some \<lparr>info_name = Some ''builderman'', info_description = Some ''ig: abc''\<rparr>)),
     social_links_get = (\<lambda>i. Inr (Some [None])),
     webhook_post = (\<lambda>x. Inr ())\<rparr>"

definition byId :: request where
  "byId = \<lparr>req_username = None, req_userId = Some (IdStr ''156''), req_rolimonsUrl = None\<rparr>"

definition noFields :: request where
  "noFields = \<lparr>req_username = None, req_userId = None, req_rolimonsUrl = None\<rparr>"

lemma byId_resolved: "resolved e byId (IdStr ''156'')"
  by (simp add: resolved_def byId_def applyRolimons_def truthy_def resolveUserId_def)

text \<open>
  The answers of /check outside the rendering failure: status 400 and no upstream call
  when no field is supplied; status 200 and the five fields when the identity and the
  profile resolve and rendering does not throw.
\<close>

lemma check_responses:
  "(req_username req = None \<and> req_userId req = None \<and> req_rolimonsUrl req = None
      \<longrightarrow> getCheck e req
            = (Json 400 (ErrorBody ''Provide ?username=NAME or ?userId=ID or ?rolimonsUrl=''), [])
        \<and> postCheck e req = (Json 400 (ErrorBody ''Provide username, userId, or rolimonsUrl''), []))
   \<and> (resolved e req uid \<and> users_get e (toStr uid) = Inr info
        \<and> (WEBHOOK_URL e = [] \<or> None \<notin> set (fst (getConnections e (toStr uid))))
      \<longrightarrow> (\<exists>r. fst (getCheck e req) = Json 200 (ResultBody r)
               \<and> fst (postCheck e req) = Json 200 (ResultBody r)
               \<and> res_userId r = uid \<and> res_bio r = bioOf info
               \<and> res_parsed r = extractConnectionsFromBio (bioOf info)
               \<and> res_connections r = fst (getConnections e (toStr uid))))
   \<and> (resolved e req uid \<and> users_get e (toStr uid) = Inr info
        \<and> WEBHOOK_URL e \<noteq> [] \<and> None \<in> set (fst (getConnections e (toStr uid)))
      \<longrightarrow> fst (getCheck e req) = Json 500 (ErrorBody (message nullTypeError))
        \<and> fst (postCheck e req) = Json 500 (ErrorBody (message nullTypeError)))"
proof (intro conjI impI)
  assume n: "req_username req = None \<and> req_userId req = None \<and> req_rolimonsUrl req = None"
  then have "checkHandler msg e req = (Json 400 (ErrorBody msg), [])" for msg
    by (simp add: checkHandler_def applyRolimons_def truthy_def resolveUserId_def fromUsername_def)
  then show "getCheck e req
            = (Json 400 (ErrorBody ''Provide ?username=NAME or ?userId=ID or ?rolimonsUrl=''), [])"
    and "postCheck e req = (Json 400 (ErrorBody ''Provide username, userId, or rolimonsUrl''), [])"
    by (simp_all add: getCheck_def postCheck_def)
next
  assume "resolved e req uid \<and> users_get e (toStr uid) = Inr info
        \<and> (WEBHOOK_URL e = [] \<or> None \<notin> set (fst (getConnections e (toStr uid))))"
  then have r: "resolved e req uid" and u: "users_get e (toStr uid) = Inr info"
    and n: "WEBHOOK_URL e = [] \<or> None \<notin> set (fst (getConnections e (toStr uid)))"
    by simp_all
  from checkHandler_resolved[OF r u n]
  show "\<exists>r. fst (getCheck e req) = Json 200 (ResultBody r)
               \<and> fst (postCheck e req) = Json 200 (ResultBody r)
               \<and> res_userId r = uid \<and> res_bio r = bioOf info
               \<and> res_parsed r = extractConnectionsFromBio (bioOf info)
               \<and> res_connections r = fst (getConnections e (toStr uid))"
    by (simp add: getCheck_def postCheck_def)
next
  assume "resolved e req uid \<and> users_get e (toStr uid) = Inr info
        \<and> WEBHOOK_URL e \<noteq> [] \<and> None \<in> set (fst (getConnections e (toStr uid)))"
  then have r: "resolved e req uid" and u: "users_get e (toStr uid) = Inr info"
    and w: "WEBHOOK_URL e \<noteq> []" and n: "None \<in> set (fst (getConnections e (toStr uid)))"
    by simp_all
  from checkHandler_null[OF r u w n]
  show "fst (getCheck e req) = Json 500 (ErrorBody (message nullTypeError))"
    and "fst (postCheck e req) = Json 500 (ErrorBody (message nullTypeError))"
    by (simp_all add: getCheck_def postCheck_def)
qed

section \<open>Properties of the bio extraction\<close>

text \<open>
  Claim C3. For the empty text, \<open>extractConnectionsFromBio\<close> returns an empty list of
  (platform, handle) matches and an empty list of URLs.
\<close>

theorem extract_empty_text:
  "extractConnectionsFromBio [] = \<lparr>found = [], urls = []\<rparr>"
  by code_simp

text \<open>
  Claim C1. The URL sequence returned by \<open>extractConnectionsFromBio\<close> is deduplicated
  case-insensitively on the full URL string: of the URL occurrences \<open>us\<close> found in the
  text, the output keeps exactly those \<open>us ! i\<close> that no earlier occurrence \<open>us ! j\<close>
  equals up to letter case, in their original casing and in their original order; no two
  output URLs are equal up to letter case.
\<close>

theorem urls_first_occurrences:
  "urls (extractConnectionsFromBio text) =
     (let us = matchAll True URL_RE None text in
        map ((!) us) (filter (\<lambda>i. \<forall>j<i. toLowerCase (us ! j) \<noteq> toLowerCase (us ! i))
                             [0 ..< length us]))
   \<and> distinct (map toLowerCase (urls (extractConnectionsFromBio text)))"
  using dedup_distinct_gen[of "{}" "matchAll True URL_RE None text"]
  by (simp add: extractConnectionsFromBio_def dedup_firstOccurrences firstOccurrences_def Let_def)

theorem urls_first_occurrences_witness:
  "matchAll True URL_RE None ''http://A.io http://a.io'' = [''http://A.io'', ''http://a.io'']
   \<and> urls (extractConnectionsFromBio ''http://A.io http://a.io'') = [''http://A.io'']
   \<and> distinct (map toLowerCase (urls (extractConnectionsFromBio ''http://A.io http://a.io'')))"
proof -
  have a: "matchAll True URL_RE None ''http://A.io http://a.io'' = [''http://A.io'', ''http://a.io'']"
    by code_simp
  have b: "urls (extractConnectionsFromBio ''http://A.io http://a.io'') = [''http://A.io'']"
    by code_simp
  from a b conjunct2[OF urls_first_occurrences[of "''http://A.io http://a.io''"]]
  show ?thesis by (intro conjI)
qed

text \<open>
  Claim C4. For every text and every platform label, \<open>extractConnectionsFromBio\<close> keeps
  the first match of the label's pattern and nothing else of that label. The entries with
  the label are exactly what \<open>text.match\<close> returns for the pattern: none when the
  pattern matches nowhere, and otherwise the one entry whose handle is the capture of the
  first match, that is of the first alternative the matcher finds at the leftmost
  position \<open>k\<close> where the pattern matches. So the list holds at most one entry per
  label, however many mentions the text has, and every entry of the list is such a first
  match.
\<close>

theorem only_first_match_per_platform:
  "length (filter (\<lambda>f. type f = label) (found (extractConnectionsFromBio text))) \<le> 1
   \<and> (\<forall>f \<in> set (found (extractConnectionsFromBio text)).
        \<exists>re k m more. (type f, re) \<in> set SOCIAL_PATTERNS \<and> k \<le> length text
          \<and> matchesAt re text k = (m, handle f) # more
          \<and> (\<forall>j<k. matchesAt re text j = []))
   \<and> ((label, re) \<in> set SOCIAL_PATTERNS \<longrightarrow>
        filter (\<lambda>f. type f = label) (found (extractConnectionsFromBio text))
          = (case match_re True re text of
               None \<Rightarrow> []
             | Some (m, h) \<Rightarrow> [\<lparr>type = label, handle = h\<rparr>])
        \<and> (k \<le> length text \<and> matchesAt re text k = (m, h) # others
             \<and> (\<forall>j<k. matchesAt re text j = [])
           \<longrightarrow> filter (\<lambda>f. type f = label) (found (extractConnectionsFromBio text))
                 = [\<lparr>type = label, handle = h\<rparr>])
        \<and> ((\<forall>j\<le>length text. matchesAt re text j = [])
           \<longrightarrow> filter (\<lambda>f. type f = label) (found (extractConnectionsFromBio text)) = []))"
proof (intro conjI ballI impI)
  show "length (filter (\<lambda>f. type f = label) (found (extractConnectionsFromBio text))) \<le> 1"
    unfolding found_concat using types_distinct by (rule distinct_filter_le1)
next
  fix f assume "f \<in> set (found (extractConnectionsFromBio text))"
  then obtain name re where p: "(name, re) \<in> set SOCIAL_PATTERNS" and f: "f \<in> set (entryOf text (name, re))"
    unfolding found_concat by auto
  from entryOf_first[OF f] p
  show "\<exists>re k m more. (type f, re) \<in> set SOCIAL_PATTERNS \<and> k \<le> length text
          \<and> matchesAt re text k = (m, handle f) # more
          \<and> (\<forall>j<k. matchesAt re text j = [])"
    by blast
next
  assume p: "(label, re) \<in> set SOCIAL_PATTERNS"
  have "distinct (map fst SOCIAL_PATTERNS)" by (simp add: names_SOCIAL_PATTERNS)
  from this p
  have e: "filter (\<lambda>f. type f = label) (found (extractConnectionsFromBio text))
           = entryOf text (label, re)"
    unfolding found_concat by (rule filter_entries)
  show "filter (\<lambda>f. type f = label) (found (extractConnectionsFromBio text))
          = (case match_re True re text of
               None \<Rightarrow> []
             | Some (m, h) \<Rightarrow> [\<lparr>type = label, handle = h\<rparr>])"
    by (simp add: e entryOf_def split: option.splits)
  {
    assume "k \<le> length text \<and> matchesAt re text k = (m, h) # others
             \<and> (\<forall>j<k. matchesAt re text j = [])"
    then have "re_search True re None text = Some (k, m, h)"
      unfolding matchesAt_def by (intro re_search_found[where rs = others]) simp_all
    then show "filter (\<lambda>f. type f = label) (found (extractConnectionsFromBio text))
                 = [\<lparr>type = label, handle = h\<rparr>]"
      by (simp add: e entryOf_def match_re_def)
  }
  {
    assume "\<forall>j\<le>length text. matchesAt re text j = []"
    then have "re_search True re None text = None"
      unfolding matchesAt_def by (rule re_search_None)
    then show "filter (\<lambda>f. type f = label) (found (extractConnectionsFromBio text)) = []"
      by (simp add: e entryOf_def match_re_def)
  }
qed

theorem only_first_match_per_platform_witness:
  "(''Instagram'', snd (hd SOCIAL_PATTERNS)) \<in> set SOCIAL_PATTERNS
   \<and> matchesAt (snd (hd SOCIAL_PATTERNS)) ''my ig:ab ig:cd'' 0 = []
   \<and> matchesAt (snd (hd SOCIAL_PATTERNS)) ''my ig:ab ig:cd'' 1 = []
   \<and> matchesAt (snd (hd SOCIAL_PATTERNS)) ''my ig:ab ig:cd'' 2 = []
   \<and> matchesAt (snd (hd SOCIAL_PATTERNS)) ''my ig:ab ig:cd'' 3 = [(''ig:ab'', Some ''ab'')]
   \<and> matchesAt (snd (hd SOCIAL_PATTERNS)) ''my ig:ab ig:cd'' 9 = [(''ig:cd'', Some ''cd'')]
   \<and> filter (\<lambda>f. type f = ''Instagram'') (found (extractConnectionsFromBio ''my ig:ab ig:cd''))
       = [\<lparr>type = ''Instagram'', handle = Some ''ab''\<rparr>]
   \<and> length (filter (\<lambda>f. type f = ''Instagram'')
               (found (extractConnectionsFromBio ''my ig:ab ig:cd''))) \<le> 1"
proof -
  let ?re = "snd (hd SOCIAL_PATTERNS)"
  let ?t = "''my ig:ab ig:cd''"
  have p: "(''Instagram'', ?re) \<in> set SOCIAL_PATTERNS" by (simp add: SOCIAL_PATTERNS_def)
  have m0: "matchesAt ?re ?t 0 = []" by code_simp
  have m1: "matchesAt ?re ?t 1 = []" by code_simp
  have m2: "matchesAt ?re ?t 2 = []" by code_simp
  have m3: "matchesAt ?re ?t 3 = [(''ig:ab'', Some ''ab'')]" by code_simp
  have m9: "matchesAt ?re ?t 9 = [(''ig:cd'', Some ''cd'')]" by code_simp
  have "j < 3 \<Longrightarrow> matchesAt ?re ?t j = []" for j
    using m0 m1 m2 by (cases j rule: nat.exhaust; simp add: less_Suc_eq numeral_3_eq_3; metis One_nat_def numeral_2_eq_2)
  then have b: "\<forall>j<3. matchesAt ?re ?t j = []" by blast
  have l: "(3::nat) \<le> length ?t" by simp
  from only_first_match_per_platform[of "''Instagram''" ?t ?re 3 "''ig:ab''" "Some ''ab''" "[]"]
       p m3 b l
  have "filter (\<lambda>f. type f = ''Instagram'') (found (extractConnectionsFromBio ?t))
       = [\<lparr>type = ''Instagram'', handle = Some ''ab''\<rparr>]"
   and "length (filter (\<lambda>f. type f = ''Instagram'') (found (extractConnectionsFromBio ?t))) \<le> 1"
    by blast+
  with p m0 m1 m2 m3 m9 show ?thesis by (intro conjI)
qed

text \<open>
  Claim C9. The match list has its entries in the fixed platform order Instagram, Twitter,
  Discord, YouTube, TikTok, Facebook, Telegram, wherever the mentions stand in the text:
  the labels of the entries are a subsequence of that list, so there are at most seven
  entries and their labels are distinct.
\<close>

theorem found_in_platform_order:
  "subseq (map type (found (extractConnectionsFromBio text)))
      [''Instagram'', ''Twitter'', ''Discord'', ''YouTube'', ''TikTok'', ''Facebook'', ''Telegram'']
   \<and> length (found (extractConnectionsFromBio text)) \<le> 7
   \<and> distinct (map type (found (extractConnectionsFromBio text)))"
proof -
  let ?names = "[''Instagram'', ''Twitter'', ''Discord'', ''YouTube'', ''TikTok'', ''Facebook'', ''Telegram'']"
  let ?ts = "map type (found (extractConnectionsFromBio text))"
  have ts: "?ts = map fst (filter (\<lambda>p. match_re True (snd p) text \<noteq> None) SOCIAL_PATTERNS)"
    by (simp only: found_concat types_found)
  have sub: "subseq ?ts ?names"
    unfolding ts names_SOCIAL_PATTERNS[symmetric] by (rule subseq_map_filter)
  have "distinct (map fst SOCIAL_PATTERNS)" by (simp add: names_SOCIAL_PATTERNS)
  then have d: "distinct ?ts" unfolding ts by (rule distinct_map_filter)
  have "length ?ts \<le> length SOCIAL_PATTERNS" unfolding ts by simp
  also have "length SOCIAL_PATTERNS = 7" by (simp add: SOCIAL_PATTERNS_def)
  finally show ?thesis using sub d by simp
qed

section \<open>Properties of the social patterns\<close>

text \<open>
  Claim C2, as amended. For each supported platform label, with its pattern in
  \<open>SOCIAL_PATTERNS\<close>:

  \<^item> a text that holds a mention of the label (\<open>mention\<close>: an alias of the label at the
    start of a word, in any letter case, then optional white space, an optional colon
    or hyphen, optional white space, an optional at sign where the label allows one, and
    a handle of two to the label's maximum number of characters of the label's class that
    ends at a word boundary) yields exactly one entry for the label;

  \<^item> when the mention is the first of the label and reads in one way only
    (\<open>plainMention\<close>), that entry carries the handle of the mention;

  \<^item> every entry for the label carries the handle of some mention of the label in the
    text;

  \<^item> a label none of whose aliases stands at the start of a word in the text has no
    entry.
\<close>

theorem social_patterns_match:
  assumes "(name, kws, withAt, cls, mx) \<in> set platforms"
  shows "(name, socialRe kws withAt cls mx) \<in> set SOCIAL_PATTERNS
    \<and> (mention kws withAt cls mx pre kw' sp1 sp sp2 a h post
        \<longrightarrow> length (filter (\<lambda>f. type f = name)
                     (found (extractConnectionsFromBio (pre @ kw' @ sp1 @ sp @ sp2 @ a @ h @ post)))) = 1)
    \<and> (mention kws withAt cls mx pre kw' sp1 sp sp2 a h post
          \<and> plainMention kws cls pre kw' sp1 sp sp2 a h post
        \<longrightarrow> filter (\<lambda>f. type f = name)
              (found (extractConnectionsFromBio (pre @ kw' @ sp1 @ sp @ sp2 @ a @ h @ post)))
            = [\<lparr>type = name, handle = Some h\<rparr>])
    \<and> (\<forall>f \<in> set (found (extractConnectionsFromBio text)). type f = name \<longrightarrow>
          (\<exists>pre kw' sp1 sp sp2 a h post. text = pre @ kw' @ sp1 @ sp @ sp2 @ a @ h @ post
              \<and> mention kws withAt cls mx pre kw' sp1 sp sp2 a h post \<and> handle f = Some h))
    \<and> (\<not> aliasAtWordStart kws None text
        \<longrightarrow> filter (\<lambda>f. type f = name) (found (extractConnectionsFromBio text)) = [])"
proof (intro conjI impI ballI)
  let ?f = "\<lambda>(name, kws, withAt, cls, mx). (name, socialRe kws withAt cls mx)"
  have "?f (name, kws, withAt, cls, mx) \<in> ?f ` set platforms"
    using assms by (rule imageI)
  then show "(name, socialRe kws withAt cls mx) \<in> set SOCIAL_PATTERNS"
    by (simp add: SOCIAL_PATTERNS_platforms)
next
  let ?re = "socialRe kws withAt cls mx"
  let ?text = "pre @ kw' @ sp1 @ sp @ sp2 @ a @ h @ post"
  assume m: "mention kws withAt cls mx pre kw' sp1 sp sp2 a h post"
  then obtain kw where kw: "kw \<in> set kws" "sameText kw kw'"
    by (auto simp: mention_def list_ex_iff)
  from m have "ms True ?re (lastChar None pre) (kw' @ sp1 @ sp @ sp2 @ a @ h @ post) \<noteq> []"
    by (intro socialRe_matches[OF assms kw]) (simp_all add: mention_def)
  then have "re_search True ?re None ?text \<noteq> None" by (rule re_search_exists)
  then obtain m0 m1 where "match_re True ?re ?text = Some (m0, m1)"
    by (auto simp: match_re_def)
  then have "entryOf ?text (name, ?re) = [\<lparr>type = name, handle = m1\<rparr>]"
    by (simp add: entryOf_def)
  then show "length (filter (\<lambda>f. type f = name) (found (extractConnectionsFromBio ?text))) = 1"
    by (simp add: found_for_label[OF assms])
next
  let ?re = "socialRe kws withAt cls mx"
  let ?text = "pre @ kw' @ sp1 @ sp @ sp2 @ a @ h @ post"
  assume "mention kws withAt cls mx pre kw' sp1 sp sp2 a h post
          \<and> plainMention kws cls pre kw' sp1 sp sp2 a h post"
  then have "match_re True ?re ?text = Some (kw' @ sp1 @ sp @ sp2 @ a @ h, Some h)"
    by (intro social_first_mention[OF assms]) simp_all
  then show "filter (\<lambda>f. type f = name) (found (extractConnectionsFromBio ?text))
            = [\<lparr>type = name, handle = Some h\<rparr>]"
    by (simp add: found_for_label[OF assms] entryOf_def)
next
  let ?re = "socialRe kws withAt cls mx"
  fix f assume f: "f \<in> set (found (extractConnectionsFromBio text))" and t: "type f = name"
  then have "f \<in> set (filter (\<lambda>f. type f = name) (found (extractConnectionsFromBio text)))"
    by simp
  then have "f \<in> set (entryOf text (name, ?re))" by (simp only: found_for_label[OF assms])
  then obtain m0 m1 where mr: "match_re True ?re text = Some (m0, m1)" and h: "handle f = m1"
    by (cases "match_re True ?re text") (auto simp: entryOf_def)
  from mr obtain k where "re_search True ?re None text = Some (k, m0, m1)"
    by (auto simp: match_re_def)
  from re_search_first[OF this]
  have "(m0, m1) \<in> set (ms True ?re (lastChar None (take k text)) (drop k text))" by auto
  from socialRe_sound[OF assms this] obtain kw kw' sp1 sp sp2 a h' post where
    d: "drop k text = kw' @ sp1 @ sp @ sp2 @ a @ h' @ post" "m1 = Some h'"
       "kw \<in> set kws" "sameText kw kw'" "\<not> isWordAt (lastChar None (take k text))"
       "list_all isSpace sp1" "sp = [] \<or> sp = '':'' \<or> sp = ''-''" "list_all isSpace sp2"
       "a = [] \<or> (withAt \<and> a = ''@'')" "2 \<le> length h'" "length h' \<le> mx"
       "list_all (inSet True (Pos cls)) h'" "isWordChar (last h') \<noteq> isWordAt (nextChar post)"
    by blast
  from d(3,4) have "list_ex (\<lambda>kw. sameText kw kw') kws" by (auto simp: list_ex_iff)
  with d have "mention kws withAt cls mx (take k text) kw' sp1 sp sp2 a h' post"
    by (simp add: mention_def)
  moreover have "text = take k text @ drop k text" by simp
  with d(1) have "text = take k text @ kw' @ sp1 @ sp @ sp2 @ a @ h' @ post" by simp
  moreover from h d(2) have "handle f = Some h'" by simp
  ultimately have "text = take k text @ kw' @ sp1 @ sp @ sp2 @ a @ h' @ post
              \<and> mention kws withAt cls mx (take k text) kw' sp1 sp sp2 a h' post \<and> handle f = Some h'"
    by (simp only: simp_thms)
  then show "\<exists>pre kw' sp1 sp sp2 a h post. text = pre @ kw' @ sp1 @ sp @ sp2 @ a @ h @ post
              \<and> mention kws withAt cls mx pre kw' sp1 sp sp2 a h post \<and> handle f = Some h"
    by (intro exI)
next
  let ?re = "socialRe kws withAt cls mx"
  assume none: "\<not> aliasAtWordStart kws None text"
  have "match_re True ?re text = None"
  proof (cases "match_re True ?re text")
    case None
    then show ?thesis .
  next
    case (Some x)
    then obtain k m c where "re_search True ?re None text = Some (k, m, c)"
      by (auto simp: match_re_def)
    from re_search_first[OF this]
    have "(m, c) \<in> set (ms True ?re (lastChar None (take k text)) (drop k text))" by auto
    from socialRe_sound[OF assms this] obtain kw kw' q where
      d: "drop k text = kw' @ q" "kw \<in> set kws" "sameText kw kw'"
         "\<not> isWordAt (lastChar None (take k text))"
      by blast
    have "text = take k text @ drop k text" by simp
    with d(1) have "text = take k text @ kw' @ q" by simp
    with d(2-4) have "\<exists>p m q kw. text = p @ m @ q \<and> kw \<in> set kws \<and> sameText kw m
                        \<and> \<not> isWordAt (lastChar None p)"
      by blast
    moreover from keyword_lower[OF assms] have "\<forall>kw \<in> set kws. kw \<noteq> []" by blast
    ultimately have "aliasAtWordStart kws None text" by (simp only: aliasAtWordStart_iff)
    with none show ?thesis by simp
  qed
  then show "filter (\<lambda>f. type f = name) (found (extractConnectionsFromBio text)) = []"
    by (simp add: found_for_label[OF assms] entryOf_def)
qed

theorem social_patterns_match_witness:
  "filter (\<lambda>f. type f = ''Instagram'') (found (extractConnectionsFromBio ''my IG: @john_doe!''))
     = [\<lparr>type = ''Instagram'', handle = Some ''john_doe''\<rparr>]
   \<and> length (filter (\<lambda>f. type f = ''Instagram'')
               (found (extractConnectionsFromBio ''my IG: @john_doe!''))) = 1
   \<and> (\<exists>pre kw' sp1 sp sp2 a post.
         ''my IG: @john_doe!'' = pre @ kw' @ sp1 @ sp @ sp2 @ a @ ''john_doe'' @ post
         \<and> mention [''ig'', ''insta'', ''instagram''] True handleChars 30
              pre kw' sp1 sp sp2 a ''john_doe'' post)
   \<and> filter (\<lambda>f. type f = ''Twitter'') (found (extractConnectionsFromBio ''ig: alex'')) = []
   \<and> filter (\<lambda>f. type f = ''Instagram'') (found (extractConnectionsFromBio ''big: foo'')) = []"
proof -
  let ?t = "''my IG: @john_doe!''"
  have ig: "(''Instagram'', [''ig'', ''insta'', ''instagram''], True, handleChars, 30) \<in> set platforms"
    by (simp add: platforms_def)
  have tw: "(''Twitter'', [''x'', ''twitter'', ''tweet''], True, handleChars, 30) \<in> set platforms"
    by (simp add: platforms_def)
  have m: "mention [''ig'', ''insta'', ''instagram''] True handleChars 30
             ''my '' ''IG'' [] '':'' '' '' ''@'' ''john_doe'' ''!''"
    by code_simp
  have pl: "plainMention [''ig'', ''insta'', ''instagram''] handleChars
             ''my '' ''IG'' [] '':'' '' '' ''@'' ''john_doe'' ''!''"
    by code_simp
  have t: "''my '' @ ''IG'' @ [] @ '':'' @ '' '' @ ''@'' @ ''john_doe'' @ ''!'' = ?t" by simp
  have n1: "\<not> aliasAtWordStart [''x'', ''twitter'', ''tweet''] None ''ig: alex''" by code_simp
  have n2: "\<not> aliasAtWordStart [''ig'', ''insta'', ''instagram''] None ''big: foo''" by code_simp
  note th = social_patterns_match[OF ig, of "''my ''" "''IG''" "[]" "'':''" "'' ''" "''@''"
              "''john_doe''" "''!''" ?t]
  from th m pl
  have a: "filter (\<lambda>f. type f = ''Instagram'') (found (extractConnectionsFromBio ?t))
             = [\<lparr>type = ''Instagram'', handle = Some ''john_doe''\<rparr>]"
    and b: "length (filter (\<lambda>f. type f = ''Instagram'') (found (extractConnectionsFromBio ?t))) = 1"
    unfolding t by blast+
  from a have "\<lparr>type = ''Instagram'', handle = Some ''john_doe''\<rparr>
                 \<in> set (filter (\<lambda>f. type f = ''Instagram'') (found (extractConnectionsFromBio ?t)))"
    by simp
  then have mem: "\<lparr>type = ''Instagram'', handle = Some ''john_doe''\<rparr> \<in> set (found (extractConnectionsFromBio ?t))"
    by simp
  have ty: "type \<lparr>type = ''Instagram'', handle = Some ''john_doe''\<rparr> = ''Instagram''" by simp
  have hf: "handle \<lparr>type = ''Instagram'', handle = Some ''john_doe''\<rparr> = Some ''john_doe''" by simp
  from mp[OF bspec[OF th[THEN conjunct2, THEN conjunct2, THEN conjunct2, THEN conjunct1] mem] ty]
  obtain pre kw' sp1 sp sp2 a h post where
    x: "?t = pre @ kw' @ sp1 @ sp @ sp2 @ a @ h @ post"
       "mention [''ig'', ''insta'', ''instagram''] True handleChars 30 pre kw' sp1 sp sp2 a h post"
       "handle \<lparr>type = ''Instagram'', handle = Some ''john_doe''\<rparr> = Some h"
    by blast
  from x(3) hf have "h = ''john_doe''" by simp
  with x(1,2) have "?t = pre @ kw' @ sp1 @ sp @ sp2 @ a @ ''john_doe'' @ post
         \<and> mention [''ig'', ''insta'', ''instagram''] True handleChars 30
              pre kw' sp1 sp sp2 a ''john_doe'' post"
    by blast
  then have c: "\<exists>pre kw' sp1 sp sp2 a post.
         ?t = pre @ kw' @ sp1 @ sp @ sp2 @ a @ ''john_doe'' @ post
         \<and> mention [''ig'', ''insta'', ''instagram''] True handleChars 30
              pre kw' sp1 sp sp2 a ''john_doe'' post"
    by (intro exI)
  from social_patterns_match[OF tw, of _ _ _ _ _ _ _ _ "''ig: alex''"] n1
  have d: "filter (\<lambda>f. type f = ''Twitter'') (found (extractConnectionsFromBio ''ig: alex'')) = []"
    by blast
  from social_patterns_match[OF ig, of _ _ _ _ _ _ _ _ "''big: foo''"] n2
  have e: "filter (\<lambda>f. type f = ''Instagram'') (found (extractConnectionsFromBio ''big: foo'')) = []"
    by blast
  from a b c d e show ?thesis by (intro conjI)
qed

text \<open>
  The claim as stated promises no match for any other label. The text \<open>ig: xavier\<close>
  mentions Instagram with the handle \<open>xavier\<close>, which the entry for Instagram carries.
  The handle starts a word with the letter \<open>x\<close>, an alias of Twitter, so the text
  mentions Twitter as well, with the handle \<open>avier\<close>.
\<close>

theorem social_patterns_unrelated_counterexample:
  "found (extractConnectionsFromBio ''ig: xavier'')
     = [\<lparr>type = ''Instagram'', handle = Some ''xavier''\<rparr>,
        \<lparr>type = ''Twitter'', handle = Some ''avier''\<rparr>]"
  by code_simp

section \<open>Properties of the profile-URL parser\<close>

text \<open>
  Claim C5, as amended. \<open>markerSegments s\<close> lists, from left to right, the path
  segments that follow an occurrence of the marker \<open>/player/\<close> (in any letter case) in
  \<open>s\<close>. When one of them is numeric (a non-empty run of digits), \<open>parseRolimonsTarget\<close>
  returns the first numeric one as the user identifier. When none is numeric and one of
  them is a non-empty run of letters, digits and underscores, it returns the first such
  segment as the username. When none of them is of either kind, it returns neither field.
\<close>

theorem parseRolimonsTarget_segments:
  "(List.find isNumeric (markerSegments s) = Some d
      \<longrightarrow> parseRolimonsTarget s = \<lparr>userId = Some d, username = None\<rparr>)
   \<and> (List.find isNumeric (markerSegments s) = None \<and> List.find isName (markerSegments s) = Some w
      \<longrightarrow> parseRolimonsTarget s = \<lparr>userId = None, username = Some w\<rparr>)
   \<and> (List.find isNumeric (markerSegments s) = None \<and> List.find isName (markerSegments s) = None
      \<longrightarrow> parseRolimonsTarget s = \<lparr>userId = None, username = None\<rparr>)"
  by (simp add: parseRolimonsTarget_eq)

theorem parseRolimonsTarget_segments_witness:
  "parseRolimonsTarget ''https://www.rolimons.com/player/12345'' = \<lparr>userId = Some ''12345'', username = None\<rparr>
   \<and> parseRolimonsTarget ''/player/john-doe/player/77'' = \<lparr>userId = Some ''77'', username = None\<rparr>
   \<and> parseRolimonsTarget ''https://www.rolimons.com/player/bob_7/'' = \<lparr>userId = None, username = Some ''bob_7''\<rparr>
   \<and> parseRolimonsTarget ''https://www.rolimons.com/player/a.b/player/'' = \<lparr>userId = None, username = None\<rparr>"
proof -
  have h1: "List.find isNumeric (markerSegments ''https://www.rolimons.com/player/12345'') = Some ''12345''"
    by code_simp
  have h2: "List.find isNumeric (markerSegments ''/player/john-doe/player/77'') = Some ''77''"
    by code_simp
  have h3: "List.find isNumeric (markerSegments ''https://www.rolimons.com/player/bob_7/'') = None
            \<and> List.find isName (markerSegments ''https://www.rolimons.com/player/bob_7/'') = Some ''bob_7''"
    by code_simp
  have h4: "List.find isNumeric (markerSegments ''https://www.rolimons.com/player/a.b/player/'') = None
            \<and> List.find isName (markerSegments ''https://www.rolimons.com/player/a.b/player/'') = None"
    by code_simp
  from parseRolimonsTarget_segments[of "''https://www.rolimons.com/player/12345''" "''12345''"] h1
  have a: "parseRolimonsTarget ''https://www.rolimons.com/player/12345'' = \<lparr>userId = Some ''12345'', username = None\<rparr>"
    by blast
  from parseRolimonsTarget_segments[of "''/player/john-doe/player/77''" "''77''"] h2
  have b: "parseRolimonsTarget ''/player/john-doe/player/77'' = \<lparr>userId = Some ''77'', username = None\<rparr>"
    by blast
  from parseRolimonsTarget_segments[of "''https://www.rolimons.com/player/bob_7/''" _ "''bob_7''"] h3
  have c: "parseRolimonsTarget ''https://www.rolimons.com/player/bob_7/'' = \<lparr>userId = None, username = Some ''bob_7''\<rparr>"
    by blast
  from parseRolimonsTarget_segments[of "''https://www.rolimons.com/player/a.b/player/''"] h4
  have d: "parseRolimonsTarget ''https://www.rolimons.com/player/a.b/player/'' = \<lparr>userId = None, username = None\<rparr>"
    by blast
  from a b c d show ?thesis by (intro conjI)
qed

text \<open>
  The claim as stated promises a username for every string whose segment after the marker
  is not numeric. The one segment of the string below, \<open>john-doe\<close>, is not numeric, and
  the parser returns neither field.
\<close>

theorem parseRolimonsTarget_hyphen_counterexample:
  "markerSegments ''https://www.rolimons.com/player/john-doe'' = [''john-doe'']
   \<and> \<not> list_all isDigit ''john-doe''
   \<and> parseRolimonsTarget ''https://www.rolimons.com/player/john-doe'' = \<lparr>userId = None, username = None\<rparr>"
  by code_simp

text \<open>
  Claim C10, as amended. \<open>parseRolimonsTarget\<close> never returns both fields; a returned
  user identifier is a non-empty string of digits; and for a string with no occurrence of
  \<open>/player/\<close> in any letter case it returns neither field.
\<close>

theorem parseRolimonsTarget_fields:
  "(userId (parseRolimonsTarget s) = None \<or> username (parseRolimonsTarget s) = None)
   \<and> (\<forall>d. userId (parseRolimonsTarget s) = Some d \<longrightarrow> d \<noteq> [] \<and> list_all isDigit d)
   \<and> ((\<forall>mk. sameText ''/player/'' mk \<longrightarrow> \<not> sublist mk s)
        \<longrightarrow> parseRolimonsTarget s = \<lparr>userId = None, username = None\<rparr>)"
proof -
  have one: "userId (parseRolimonsTarget s) = None \<or> username (parseRolimonsTarget s) = None"
    by (simp add: parseRolimonsTarget_eq split: option.splits)
  have digits: "d \<noteq> [] \<and> list_all isDigit d" if "userId (parseRolimonsTarget s) = Some d" for d
  proof -
    from that have "List.find isNumeric (markerSegments s) = Some d"
      by (simp add: parseRolimonsTarget_eq split: option.splits)
    then have "isNumeric d" by (auto simp: find_Some_iff)
    then show ?thesis by (simp add: isNumeric_def)
  qed
  have none: "parseRolimonsTarget s = \<lparr>userId = None, username = None\<rparr>"
    if "\<forall>mk. sameText ''/player/'' mk \<longrightarrow> \<not> sublist mk s"
  proof -
    from that markerSegments_sublist[of s] have "markerSegments s = []" by blast
    then show ?thesis by (simp add: parseRolimonsTarget_eq)
  qed
  from one digits none show ?thesis by blast
qed

theorem parseRolimonsTarget_fields_witness:
  "parseRolimonsTarget ''https://www.rolimons.com/'' = \<lparr>userId = None, username = None\<rparr>
   \<and> userId (parseRolimonsTarget ''/player/42/'') = Some ''42''
   \<and> list_all isDigit ''42''
   \<and> username (parseRolimonsTarget ''/player/42/'') = None"
proof -
  have "markerSegments ''https://www.rolimons.com/'' = []" by code_simp
  with markerSegments_sublist[of "''https://www.rolimons.com/''"]
  have h: "\<forall>mk. sameText ''/player/'' mk \<longrightarrow> \<not> sublist mk ''https://www.rolimons.com/''" by blast
  have u: "userId (parseRolimonsTarget ''/player/42/'') = Some ''42''" by code_simp
  from parseRolimonsTarget_fields[of "''https://www.rolimons.com/''"] h
  have a: "parseRolimonsTarget ''https://www.rolimons.com/'' = \<lparr>userId = None, username = None\<rparr>"
    by blast
  from parseRolimonsTarget_fields[of "''/player/42/''"] u
  have b: "list_all isDigit ''42'' \<and> username (parseRolimonsTarget ''/player/42/'') = None"
    by auto
  from a u b show ?thesis by blast
qed

text \<open>
  The claim as stated asks only that the string does not contain \<open>/player/\<close> itself.
  The pattern ignores case, so a string without \<open>/player/\<close> yields a user identifier.
\<close>

theorem parseRolimonsTarget_upper_case_counterexample:
  "\<not> sublist ''/player/'' ''https://www.rolimons.com/PLAYER/123''
   \<and> parseRolimonsTarget ''https://www.rolimons.com/PLAYER/123'' = \<lparr>userId = Some ''123'', username = None\<rparr>"
  by code_simp

section \<open>Properties of the endpoint\<close>

text \<open>
  Claim C6. Whenever the private connections fetch fails (the session cookie is missing,
  the call throws, as on an HTTP status 401, 403 or 429 or on a timeout, or the response
  body is not an array), \<open>getConnections\<close> returns the empty list; and a GET or POST
  request to /check whose identity and profile resolve still succeeds, with status 200
  and that empty connections list.
\<close>

theorem connections_failure_gives_empty_list:
  "(ROBLOX_COOKIE e = [] \<or> (\<exists>err. social_links_get e (toStr uid) = Inl err)
      \<or> social_links_get e (toStr uid) = Inr None)
   \<longrightarrow> fst (getConnections e (toStr uid)) = []
     \<and> (resolved e req uid \<and> users_get e (toStr uid) = Inr info
          \<longrightarrow> (\<exists>r. fst (getCheck e req) = Json 200 (ResultBody r) \<and> res_connections r = [])
            \<and> (\<exists>r. fst (postCheck e req) = Json 200 (ResultBody r) \<and> res_connections r = []))"
proof (intro impI conjI)
  assume "ROBLOX_COOKIE e = [] \<or> (\<exists>err. social_links_get e (toStr uid) = Inl err)
      \<or> social_links_get e (toStr uid) = Inr None"
  then show c: "fst (getConnections e (toStr uid)) = []"
    by (auto simp: getConnections_def)
  assume "resolved e req uid \<and> users_get e (toStr uid) = Inr info"
  then have r: "resolved e req uid" and u: "users_get e (toStr uid) = Inr info" by simp_all
  from c have n: "WEBHOOK_URL e = [] \<or> None \<notin> set (fst (getConnections e (toStr uid)))"
    by simp
  from checkHandler_resolved[OF r u n] c
  show "\<exists>r. fst (getCheck e req) = Json 200 (ResultBody r) \<and> res_connections r = []"
    by (simp add: getCheck_def)
  from checkHandler_resolved[OF r u n] c
  show "\<exists>r. fst (postCheck e req) = Json 200 (ResultBody r) \<and> res_connections r = []"
    by (simp add: postCheck_def)
qed

theorem connections_failure_gives_empty_list_witness:
  "social_links_get denied ''156'' = Inl \<lparr>message = ''Request failed with status code 401'', status = Some 401\<rparr>
   \<and> fst (getConnections denied ''156'') = []
   \<and> (\<exists>r. fst (getCheck denied byId) = Json 200 (ResultBody r) \<and> res_connections r = [])"
proof -
  have f: "social_links_get denied (toStr (IdStr ''156''))
             = Inl \<lparr>message = ''Request failed with status code 401'', status = Some 401\<rparr>"
    by (simp add: denied_def)
  have u: "users_get denied (toStr (IdStr ''156''))
             = Inr (Some \<lparr>info_name = Some ''builderman'', info_description = Some ''ig: abc''\<rparr>)"
    by (simp add: denied_def)
  from connections_failure_gives_empty_list[of denied "IdStr ''156''" byId
         "Some \<lparr>info_name = Some ''builderman'', info_description = Some ''ig: abc''\<rparr>"]
       f u byId_resolved[of denied]
  show ?thesis by auto
qed

text \<open>
  Claim C7. A failure of the webhook post never fails the /check request: the response to
  a GET or POST request is the same whatever the webhook answers. The post's failure
  never leaves \<open>sendDiscordEmbed\<close> either: its outcome does not depend on the webhook's
  answer, and it fails only where rendering throws on a \<open>null\<close> connection, before the
  post is made.
\<close>

theorem webhook_failure_same_response:
  "fst (getCheck (e\<lparr>webhook_post := w\<rparr>) req) = fst (getCheck (e\<lparr>webhook_post := w'\<rparr>) req)
   \<and> fst (postCheck (e\<lparr>webhook_post := w\<rparr>) req) = fst (postCheck (e\<lparr>webhook_post := w'\<rparr>) req)
   \<and> fst (sendDiscordEmbed (e\<lparr>webhook_post := w\<rparr>) input)
       = fst (sendDiscordEmbed (e\<lparr>webhook_post := w'\<rparr>) input)
   \<and> fst (sendDiscordEmbed e input)
       = (if WEBHOOK_URL e \<noteq> [] \<and> None \<in> set (embed_connections input)
          then Inl nullTypeError else Inr ())"
proof -
  have "fst (checkHandler msg (e\<lparr>webhook_post := w\<rparr>) req)
        = fst (checkHandler msg (e\<lparr>webhook_post := w'\<rparr>) req)" for msg
    by (simp add: checkHandler_def resolveUserId_def fromUsername_def usernameToId_def
          getUserInfo_def getConnections_def sendDiscordEmbed_def Let_def case_prod_unfold
          split: option.splits sum.splits)
  then show ?thesis by (simp add: getCheck_def postCheck_def sendDiscordEmbed_result)
qed

text \<open>
  Claim C8. A GET or POST request to /check that supplies none of \<open>username\<close>,
  \<open>userId\<close> and \<open>rolimonsUrl\<close> is answered with status 400 and an error message, and
  makes no upstream call; a request whose identity and profile resolve is answered with
  status 200 and an object of the fields \<open>userId\<close>, \<open>username\<close>, \<open>bio\<close>,
  \<open>parsed\<close> and \<open>connections\<close>.

  The first part holds, and so does the second unless a webhook is configured and the
  social links array holds a \<open>null\<close> (lemma \<open>check_responses\<close>). There the code
  breaks the claim: the identity and the profile of the request resolve, rendering the
  embed throws outside the \<open>try\<close> of \<open>sendDiscordEmbed\<close>, no post is made, and both
  handlers answer status 500 with the message of the \<open>TypeError\<close>.
\<close>

theorem check_null_connection_answers_500:
  "resolved nullLink byId (IdStr ''156'')
   \<and> users_get nullLink (toStr (IdStr ''156''))
       = Inr (Some \<lparr>info_name = Some ''builderman'', info_description = Some ''ig: abc''\<rparr>)
   \<and> getConnections nullLink (toStr (IdStr ''156'')) = ([None], [GetSocialLinks ''156''])
   \<and> getCheck nullLink byId
       = (Json 500 (ErrorBody ''Cannot read properties of null (reading 'type')''),
          [GetUser ''156'', GetSocialLinks ''156''])
   \<and> postCheck nullLink byId
       = (Json 500 (ErrorBody ''Cannot read properties of null (reading 'type')''),
          [GetUser ''156'', GetSocialLinks ''156''])"
  by (simp add: byId_resolved)
     (simp add: nullLink_def byId_def getCheck_def postCheck_def checkHandler_def
        applyRolimons_def truthy_def resolveUserId_def getUserInfo_def getConnections_def
        sendDiscordEmbed_def nullTypeError_def)

end
